theory Spec2Isabelle
  imports Complex_Main
begin

section \<open>Data model\<close>

text \<open>
  The repository embeds a virtual network request onto a physical network. The physical
  network is loaded from JSON as two lists of dictionaries, the nodes (\<open>NP\<close>) and the
  links (\<open>LP\<close>); every dictionary with a fixed set of keys is a record here.

  Numbers: the generators of the repository draw capacities, security levels, bandwidths,
  delays and CPU requirements with \<open>random.randint\<close>, so these are Python integers
  (\<open>int\<close>). The averages and the probabilities are Python floats; they are modelled as
  \<open>real\<close>, that is, without rounding. The field \<open>id\<close> of a physical node is called
  \<open>node_id\<close>, since \<open>id\<close> is the identity function of HOL.

  A link names its end points as \<open>node_<i>\<close>; the code reads the index with
  \<open>int(link['source'].split('_')[1])\<close>. The record holds that index, a natural number
  as the generator writes it.
\<close>

datatype error = ValueError | ZeroDivisionError | IndexError | RuntimeError

record physical_node =
  node_id :: string
  cpu_capacity :: int
  security_level :: int

record physical_link =
  source :: nat
  target :: nat
  bandwidth :: int
  delay :: int

record virtual_node =
  node :: string
  cpu_req :: int
  safety_req :: int

record node_feature =
  Node :: string
  CPU_Resources :: int
  Adjacent_Bandwidth :: int
  Distance_Correlation :: real
  Time_Correlation :: real
  Security :: int

record mapping_entry =
  virtual_node :: string
  mapped_physical_node :: string

section \<open>node\_policy\_net.py: one mapping decision\<close>

subsection \<open>The weighted draw of the standard library\<close>

text \<open>
  \<open>random.choices(population, weights, k=1)[0]\<close>: the cumulative weights are summed
  up, their total must be positive, and the position is found by \<open>bisect\<close> (the
  right-biased binary search) of \<open>random() * total\<close> between \<open>0\<close> and \<open>n - 1\<close>.
  The value returned by \<open>random()\<close> is the parameter \<open>r\<close>.
\<close>

fun accumulate :: "real \<Rightarrow> real list \<Rightarrow> real list" where
  "accumulate acc [] = []"
| "accumulate acc (w # ws) = (acc + w) # accumulate (acc + w) ws"

function bisect :: "real list \<Rightarrow> real \<Rightarrow> nat \<Rightarrow> nat \<Rightarrow> nat" where
  "bisect a x lo hi =
     (if lo < hi then
        (let mid = (lo + hi) div 2 in
         if x < a ! mid then bisect a x lo mid else bisect a x (mid + 1) hi)
      else lo)"
  by pat_completeness auto
termination
  by (relation "measure (\<lambda>(a, x, lo, hi). hi - lo)") auto

declare bisect.simps [simp del]

definition random_choices :: "nat list \<Rightarrow> real list \<Rightarrow> real \<Rightarrow> error + nat" where
  "random_choices population weights r =
     (let n = length population;
          cum_weights = accumulate 0 weights
      in if length cum_weights \<noteq> n then Inl ValueError
         else if cum_weights = [] then Inl IndexError
         else let total = last cum_weights
              in if total \<le> 0 then Inl ValueError
                 else Inr (population ! bisect cum_weights (r * total) 0 (n - 1)))"

subsection \<open>map\_virtual\_node\<close>

text \<open>
  The scoring network is a parameter: \<open>policy_net\<close> takes the rows
  \<open>[CPU Resources, Adjacent Bandwidth, Distance Correlation, Time Correlation, Security]\<close>
  of all nodes and returns the list of probabilities. The code builds a tensor from the
  rows, adds a batch dimension and permutes three dimensions; with no row at all the tensor
  has two dimensions only and \<open>permute\<close> raises a \<open>RuntimeError\<close>.

  The probabilities, their sum and the weights are real numbers here. What the floats of
  the code add is not modelled: a sum that overflows to infinity or cancels to zero, a
  weight that is not a number (on which \<open>random.choices\<close> raises \<open>ValueError\<close>),
  and the \<open>OverflowError\<close> of the tensor for an integer beyond the range of a float.
  A property below that holds of the floats as well is stated without a condition on the
  sum; one that needs the sum says so in its hypotheses.
\<close>

type_synonym policy = "real list list \<Rightarrow> real list"

definition features_rows :: "node_feature list \<Rightarrow> real list list" where
  "features_rows node_features =
     map (\<lambda>feature. [real_of_int (CPU_Resources feature),
                      real_of_int (Adjacent_Bandwidth feature),
                      Distance_Correlation feature,
                      Time_Correlation feature,
                      real_of_int (Security feature)]) node_features"

text \<open>
  The filter loop of \<open>map_virtual_node\<close> over \<open>enumerate(node_features)\<close>, with both
  accumulators; \<open>probabilities[idx]\<close> raises \<open>IndexError\<close> beyond the end of the list.
\<close>

fun filter_eligible ::
  "(nat \<times> node_feature) list \<Rightarrow> real list \<Rightarrow> int \<Rightarrow> nat list \<Rightarrow> real list
     \<Rightarrow> error + (nat list \<times> real list)" where
  "filter_eligible [] probabilities requirement eligible_nodes eligible_probs =
     Inr (eligible_nodes, eligible_probs)"
| "filter_eligible ((idx, feature) # rest) probabilities requirement eligible_nodes eligible_probs =
     (if CPU_Resources feature \<ge> requirement then
        (if idx < length probabilities then
           filter_eligible rest probabilities requirement
             (eligible_nodes @ [idx]) (eligible_probs @ [probabilities ! idx])
         else Inl IndexError)
      else filter_eligible rest probabilities requirement eligible_nodes eligible_probs)"

definition normalized_probs :: "real list \<Rightarrow> real list" where
  "normalized_probs eligible_probs =
     map (\<lambda>prob. prob / sum_list eligible_probs) eligible_probs"

definition map_virtual_node ::
  "node_feature list \<Rightarrow> policy \<Rightarrow> int \<Rightarrow> real \<Rightarrow> error + (real list \<times> nat)" where
  "map_virtual_node node_features policy_net virtual_node_cpu_requirement r =
     (if node_features = [] then Inl RuntimeError
      else
        let probabilities = policy_net (features_rows node_features) in
        case filter_eligible (enumerate 0 node_features) probabilities
               virtual_node_cpu_requirement [] [] of
          Inl e \<Rightarrow> Inl e
        | Inr (eligible_nodes, eligible_probs) \<Rightarrow>
            if eligible_nodes = [] then Inl ValueError
            else if sum_list eligible_probs = 0 then Inl ZeroDivisionError
            else (case random_choices eligible_nodes (normalized_probs eligible_probs) r of
                    Inl e \<Rightarrow> Inl e
                  | Inr selected_node \<Rightarrow> Inr (probabilities, selected_node)))"

section \<open>featureExtraction/node\_feature\_ext.py\<close>

text \<open>
  \<open>build_adjacency_list\<close>: a \<open>defaultdict(list)\<close>, a total map whose default is the
  empty list. Each link appends the target to the source's list, then the source to the
  target's list.
\<close>

type_synonym adjacency = "nat \<Rightarrow> nat list"

definition add_link :: "adjacency \<Rightarrow> physical_link \<Rightarrow> adjacency" where
  "add_link adjacency link =
     (let adjacency1 = adjacency(source link := adjacency (source link) @ [target link])
      in adjacency1(target link := adjacency1 (target link) @ [source link]))"

definition build_adjacency_list :: "physical_link list \<Rightarrow> adjacency" where
  "build_adjacency_list physical_links = foldl add_link (\<lambda>_. []) physical_links"

definition get_node_computing_resources :: "physical_node list \<Rightarrow> int list" where
  "get_node_computing_resources physical_nodes = map cpu_capacity physical_nodes"

text \<open>
  \<open>get_adjacent_link_bandwidth\<close>: \<open>adj_bandwidth[source] += bandwidth\<close> raises
  \<open>IndexError\<close> when the link names a node beyond the list.
\<close>

fun add_bandwidths :: "physical_link list \<Rightarrow> int list \<Rightarrow> error + int list" where
  "add_bandwidths [] adj_bandwidth = Inr adj_bandwidth"
| "add_bandwidths (link # rest) adj_bandwidth =
     (if source link < length adj_bandwidth then
        (let adj1 = adj_bandwidth[source link := adj_bandwidth ! source link + bandwidth link]
         in if target link < length adj1 then
              add_bandwidths rest (adj1[target link := adj1 ! target link + bandwidth link])
            else Inl IndexError)
      else Inl IndexError)"

definition get_adjacent_link_bandwidth ::
  "physical_node list \<Rightarrow> physical_link list \<Rightarrow> error + int list" where
  "get_adjacent_link_bandwidth physical_nodes physical_links =
     add_bandwidths physical_links (replicate (length physical_nodes) 0)"

text \<open>
  \<open>get_distance_correlation\<close>. The inner \<open>for neighbor in adjacency[current]\<close> of the
  breadth-first search works on the triple of \<open>visited\<close>, \<open>distance\<close> and \<open>queue\<close>;
  \<open>visited[neighbor]\<close> raises \<open>IndexError\<close> for a neighbour beyond the list.
\<close>

type_synonym bfs_state = "bool list \<times> nat list \<times> nat list"

fun visit_neighbors :: "nat list \<Rightarrow> nat \<Rightarrow> bfs_state \<Rightarrow> error + bfs_state" where
  "visit_neighbors [] current st = Inr st"
| "visit_neighbors (neighbor # rest) current (visited, distance, queue) =
     (if neighbor < length visited then
        (if \<not> visited ! neighbor then
           visit_neighbors rest current
             (visited[neighbor := True],
              distance[neighbor := distance ! current + 1],
              queue @ [neighbor])
         else visit_neighbors rest current (visited, distance, queue))
      else Inl IndexError)"

definition unvisited :: "bool list \<Rightarrow> nat" where
  "unvisited visited = length (filter (\<lambda>b. \<not> b) visited)"

lemma unvisited_mark:
  "neighbor < length visited \<Longrightarrow> \<not> visited ! neighbor \<Longrightarrow>
   Suc (unvisited (visited[neighbor := True])) = unvisited visited"
proof (induction visited arbitrary: neighbor)
  case Nil
  then show ?case by simp
next
  case (Cons b bs)
  then show ?case
    by (cases neighbor) (auto simp: unvisited_def)
qed

lemma visit_neighbors_measure:
  "visit_neighbors ns current (visited, distance, queue) = Inr (visited', distance', queue') \<Longrightarrow>
   2 * unvisited visited' + length queue' \<le> 2 * unvisited visited + length queue"
proof (induction ns arbitrary: visited distance queue)
  case Nil
  then show ?case by simp
next
  case (Cons n ns)
  show ?case
  proof (cases "n < length visited \<and> \<not> visited ! n")
    case True
    with Cons.prems have
      "visit_neighbors ns current
         (visited[n := True], distance[n := distance ! current + 1], queue @ [n])
       = Inr (visited', distance', queue')"
      by simp
    from Cons.IH [OF this] unvisited_mark [of n visited] True show ?thesis
      by simp
  next
    case False
    with Cons.prems have
      "visit_neighbors ns current (visited, distance, queue) = Inr (visited', distance', queue')"
      by (auto split: if_splits)
    from Cons.IH [OF this] show ?thesis .
  qed
qed

text \<open>The \<open>while queue\<close> loop: \<open>popleft\<close> takes the head of the queue.\<close>

function bfs_loop :: "adjacency \<Rightarrow> bfs_state \<Rightarrow> error + nat list" where
  "bfs_loop adjacency (visited, distance, queue) =
     (case queue of
        [] \<Rightarrow> Inr distance
      | current # rest \<Rightarrow>
          (case visit_neighbors (adjacency current) current (visited, distance, rest) of
             Inl e \<Rightarrow> Inl e
           | Inr st \<Rightarrow> bfs_loop adjacency st))"
  by pat_completeness auto
termination
proof (relation "measure (\<lambda>(adjacency, visited, distance, queue).
                   2 * unvisited visited + length queue)")
  show "wf (measure (\<lambda>(adjacency, visited, distance, queue).
                   2 * unvisited visited + length queue))"
    by simp
next
  fix adjacency :: adjacency and visited distance queue current rest st
  assume q: "queue = current # rest"
    and v: "visit_neighbors (adjacency current) current (visited, distance, rest) = Inr st"
  obtain visited' distance' queue' where st: "st = (visited', distance', queue')"
    by (cases st) auto
  from visit_neighbors_measure [OF v [unfolded st]] q st
  show "((adjacency, st), (adjacency, visited, distance, queue))
        \<in> measure (\<lambda>(adjacency, visited, distance, queue).
                   2 * unvisited visited + length queue)"
    by simp
qed

declare bfs_loop.simps [simp del]

definition shortest_distances :: "adjacency \<Rightarrow> nat \<Rightarrow> nat \<Rightarrow> error + nat list" where
  "shortest_distances adjacency num_nodes k =
     bfs_loop adjacency
       ((replicate num_nodes False)[k := True], replicate num_nodes 0, [k])"

text \<open>
  \<open>[distance[mapped_node] for mapped_node in mapped_nodes if mapped_node != k]\<close>, which
  raises \<open>IndexError\<close> for a mapped node beyond the list.
\<close>

fun mapped_distances :: "nat list \<Rightarrow> nat list \<Rightarrow> nat \<Rightarrow> error + nat list" where
  "mapped_distances distance [] k = Inr []"
| "mapped_distances distance (mapped_node # rest) k =
     (if mapped_node \<noteq> k then
        (if mapped_node < length distance then
           (case mapped_distances distance rest k of
              Inl e \<Rightarrow> Inl e
            | Inr ds \<Rightarrow> Inr (distance ! mapped_node # ds))
         else Inl IndexError)
      else mapped_distances distance rest k)"

definition avg_distance :: "nat list \<Rightarrow> real" where
  "avg_distance ds =
     (if ds \<noteq> [] then real (sum_list ds) / real (length ds) else 0)"

fun distance_corr_loop ::
  "adjacency \<Rightarrow> nat \<Rightarrow> nat list \<Rightarrow> nat list \<Rightarrow> error + real list" where
  "distance_corr_loop adjacency num_nodes mapped_nodes [] = Inr []"
| "distance_corr_loop adjacency num_nodes mapped_nodes (k # ks) =
     (case shortest_distances adjacency num_nodes k of
        Inl e \<Rightarrow> Inl e
      | Inr distance \<Rightarrow>
          (case mapped_distances distance mapped_nodes k of
             Inl e \<Rightarrow> Inl e
           | Inr ds \<Rightarrow>
               (case distance_corr_loop adjacency num_nodes mapped_nodes ks of
                  Inl e \<Rightarrow> Inl e
                | Inr distance_corr \<Rightarrow> Inr (avg_distance ds # distance_corr))))"

definition get_distance_correlation ::
  "physical_node list \<Rightarrow> adjacency \<Rightarrow> nat list \<Rightarrow> error + real list" where
  "get_distance_correlation physical_nodes adjacency mapped_nodes =
     distance_corr_loop adjacency (length physical_nodes) mapped_nodes
       [0 ..< length physical_nodes]"

text \<open>\<open>get_time_correlation\<close>: the sums of the delays and the counts of the links.\<close>

fun add_delays ::
  "physical_link list \<Rightarrow> int list \<times> nat list \<Rightarrow> error + (int list \<times> nat list)" where
  "add_delays [] st = Inr st"
| "add_delays (link # rest) (total_delay, link_count) =
     (if source link < length total_delay then
        (let total1 = total_delay[source link := total_delay ! source link + delay link]
         in if target link < length total1 then
              (let total2 = total1[target link := total1 ! target link + delay link]
               in if source link < length link_count then
                    (let count1 = link_count[source link := link_count ! source link + 1]
                     in if target link < length count1 then
                          add_delays rest
                            (total2, count1[target link := count1 ! target link + 1])
                        else Inl IndexError)
                  else Inl IndexError)
            else Inl IndexError)
      else Inl IndexError)"

definition avg_delay :: "int \<times> nat \<Rightarrow> real" where
  "avg_delay p =
     (if snd p > 0 then real_of_int (fst p) / real (snd p) else 0)"

definition get_time_correlation ::
  "physical_node list \<Rightarrow> physical_link list \<Rightarrow> error + real list" where
  "get_time_correlation physical_nodes physical_links =
     (let num_nodes = length physical_nodes in
      case add_delays physical_links (replicate num_nodes 0, replicate num_nodes 0) of
        Inl e \<Rightarrow> Inl e
      | Inr (total_delay, link_count) \<Rightarrow> Inr (map avg_delay (zip total_delay link_count)))"

definition get_node_security :: "physical_node list \<Rightarrow> int list" where
  "get_node_security physical_nodes = map security_level physical_nodes"

text \<open>The decimal digits of \<open>idx\<close> in \<open>f'node_{idx}'\<close>.\<close>

fun str_nat :: "nat \<Rightarrow> string" where
  "str_nat n =
     (if n < 10 then [char_of (48 + n)]
      else str_nat (n div 10) @ [char_of (48 + n mod 10)])"

definition get_node_features_matrix ::
  "physical_node list \<Rightarrow> physical_link list \<Rightarrow> nat list \<Rightarrow> error + node_feature list" where
  "get_node_features_matrix physical_nodes physical_links mapped_nodes =
     (let cpu_resources = get_node_computing_resources physical_nodes in
      case get_adjacent_link_bandwidth physical_nodes physical_links of
        Inl e \<Rightarrow> Inl e
      | Inr adj_bandwidth \<Rightarrow>
          (let security = get_node_security physical_nodes;
               adjacency = build_adjacency_list physical_links
           in case get_distance_correlation physical_nodes adjacency mapped_nodes of
                Inl e \<Rightarrow> Inl e
              | Inr distance_corr \<Rightarrow>
                  (case get_time_correlation physical_nodes physical_links of
                     Inl e \<Rightarrow> Inl e
                   | Inr time_corr \<Rightarrow>
                       Inr (map (\<lambda>idx.
                              \<lparr>Node = ''node_'' @ str_nat idx,
                               CPU_Resources = cpu_resources ! idx,
                               Adjacent_Bandwidth = adj_bandwidth ! idx,
                               Distance_Correlation = distance_corr ! idx,
                               Time_Correlation = time_corr ! idx,
                               Security = security ! idx\<rparr>)
                            [0 ..< length physical_nodes]))))"

section \<open>main.py: the mapping session\<close>

text \<open>
  \<open>main\<close> reads the physical network from a file, fixes one virtual network request and
  a freshly initialised scoring network, and maps the virtual nodes in order. Here the
  contents of the file, the scoring network, the values that \<open>random()\<close> returns (the
  sequence \<open>random\<close>, of which \<open>draws\<close> counts the values taken so far) and the list of
  virtual nodes are parameters. The state of the loop is the record \<open>session\<close>.
\<close>

record session =
  physical_nodes :: "physical_node list"
  node_features :: "node_feature list"
  mapped_nodes :: "nat list"
  mapping_results :: "mapping_entry list"
  draws :: nat

text \<open>Lines 79 to 81: the subtraction and the reset of a negative capacity.\<close>

definition deduct_capacity :: "physical_node \<Rightarrow> int \<Rightarrow> physical_node" where
  "deduct_capacity p v_cpu_req =
     (let p1 = p\<lparr>cpu_capacity := cpu_capacity p - v_cpu_req\<rparr>
      in if cpu_capacity p1 < 0 then p1\<lparr>cpu_capacity := 0\<rparr> else p1)"

text \<open>
  Lines 68 to 87, the rest of the \<open>try\<close> block once a node is selected: the mapping is
  recorded, the capacity deducted, the \<open>CPU Resources\<close> entry of the feature list
  overwritten, the index appended to \<open>mapped_nodes\<close>. One value of \<open>random()\<close> has
  been taken by then.
\<close>

definition commit :: "session \<Rightarrow> virtual_node \<Rightarrow> nat \<Rightarrow> session" where
  "commit s v_node selected_node_idx =
     (let selected_node = physical_nodes s ! selected_node_idx;
          results1 = mapping_results s @
            [\<lparr>virtual_node = node v_node,
              mapped_physical_node = node_id selected_node\<rparr>];
          nodes1 = (physical_nodes s)
            [selected_node_idx := deduct_capacity selected_node (cpu_req v_node)];
          features1 = (node_features s)
            [selected_node_idx := (node_features s ! selected_node_idx)
               \<lparr>CPU_Resources := cpu_capacity (nodes1 ! selected_node_idx)\<rparr>]
      in \<lparr>physical_nodes = nodes1,
          node_features = features1,
          mapped_nodes = mapped_nodes s @ [selected_node_idx],
          mapping_results = results1,
          draws = draws s + 1\<rparr>)"

text \<open>
  The body of the \<open>for v_node\<close> loop. \<open>except ValueError\<close> prints a message and goes on
  with the next virtual node; any other exception leaves \<open>main\<close>. An index beyond
  \<open>physical_nodes\<close> or \<open>node_features\<close> raises \<open>IndexError\<close>.
\<close>

definition main_step ::
  "policy \<Rightarrow> (nat \<Rightarrow> real) \<Rightarrow> session \<Rightarrow> virtual_node \<Rightarrow> error + session" where
  "main_step policy_net random s v_node =
     (case map_virtual_node (node_features s) policy_net (cpu_req v_node) (random (draws s)) of
        Inl e \<Rightarrow> (if e = ValueError then Inr s else Inl e)
      | Inr (probabilities, selected_node_idx) \<Rightarrow>
          if selected_node_idx < length (physical_nodes s)
             \<and> selected_node_idx < length (node_features s)
          then Inr (commit s v_node selected_node_idx)
          else Inl IndexError)"

fun main_loop ::
  "policy \<Rightarrow> (nat \<Rightarrow> real) \<Rightarrow> session \<Rightarrow> virtual_node list \<Rightarrow> error + session" where
  "main_loop policy_net random s [] = Inr s"
| "main_loop policy_net random s (v_node # rest) =
     (case main_step policy_net random s v_node of
        Inl e \<Rightarrow> Inl e
      | Inr s1 \<Rightarrow> main_loop policy_net random s1 rest)"

definition unmapped_virtual_nodes :: "virtual_node list \<Rightarrow> mapping_entry list \<Rightarrow> string set" where
  "unmapped_virtual_nodes virtual_nodes results =
     set (map node virtual_nodes) - set (map virtual_node results)"

definition initial_session :: "physical_node list \<Rightarrow> node_feature list \<Rightarrow> session" where
  "initial_session nodes features =
     \<lparr>physical_nodes = nodes, node_features = features, mapped_nodes = [],
      mapping_results = [], draws = 0\<rparr>"

definition main ::
  "policy \<Rightarrow> (nat \<Rightarrow> real) \<Rightarrow> physical_node list \<Rightarrow> physical_link list \<Rightarrow> virtual_node list
     \<Rightarrow> error + (mapping_entry list \<times> string set)" where
  "main policy_net random nodes links virtual_nodes =
     (case get_node_features_matrix nodes links [] of
        Inl e \<Rightarrow> Inl e
      | Inr features \<Rightarrow>
          (case main_loop policy_net random (initial_session nodes features) virtual_nodes of
             Inl e \<Rightarrow> Inl e
           | Inr s \<Rightarrow>
               Inr (mapping_results s, unmapped_virtual_nodes virtual_nodes (mapping_results s))))"

text \<open>The virtual nodes of the request that \<open>main\<close> fixes.\<close>

definition virtual_network_request :: "virtual_node list" where
  "virtual_network_request =
     [\<lparr>node = ''Virtual_Node_1'', cpu_req = 7, safety_req = 2\<rparr>,
      \<lparr>node = ''Virtual_Node_2'', cpu_req = 16, safety_req = 2\<rparr>,
      \<lparr>node = ''Virtual_Node_3'', cpu_req = 19, safety_req = 3\<rparr>,
      \<lparr>node = ''Virtual_Node_4'', cpu_req = 9, safety_req = 2\<rparr>,
      \<lparr>node = ''Virtual_Node_5'', cpu_req = 15, safety_req = 1\<rparr>]"

section \<open>Vocabulary of the properties\<close>

text \<open>
  The indices of the nodes whose \<open>CPU Resources\<close> entry meets a requirement, in index
  order: what the filter loop of \<open>map_virtual_node\<close> collects (lemma
  \<open>filter_eligible_enumerate\<close> below).
\<close>

definition eligible_indices :: "node_feature list \<Rightarrow> int \<Rightarrow> nat list" where
  "eligible_indices features requirement =
     filter (\<lambda>idx. CPU_Resources (features ! idx) \<ge> requirement) [0 ..< length features]"

text \<open>
  The feature list of a session carries the capacities of its physical nodes: what
  line 84 of \<open>main\<close> maintains.
\<close>

definition features_in_sync :: "session \<Rightarrow> bool" where
  "features_in_sync s \<longleftrightarrow>
     map CPU_Resources (node_features s) = map cpu_capacity (physical_nodes s)"

text \<open>
  The graph of an adjacency list: \<open>b\<close> is a neighbour of \<open>a\<close>. A path of \<open>n\<close> hops is
  membership in the \<open>n\<close>-fold composition of \<open>edges\<close>; \<open>n\<close> is the hop distance from
  \<open>k\<close> to \<open>m\<close> when there is a path of \<open>n\<close> hops and none of fewer. An adjacency list
  is well formed for \<open>num_nodes\<close> nodes when the neighbours of every node are nodes.
\<close>

definition edges :: "adjacency \<Rightarrow> (nat \<times> nat) set" where
  "edges adjacency = {(a, b). b \<in> set (adjacency a)}"

definition well_formed :: "adjacency \<Rightarrow> nat \<Rightarrow> bool" where
  "well_formed adjacency num_nodes \<longleftrightarrow>
     (\<forall>a \<in> set [0 ..< num_nodes]. \<forall>b \<in> set (adjacency a). b < num_nodes)"

definition is_hop_distance :: "adjacency \<Rightarrow> nat \<Rightarrow> nat \<Rightarrow> nat \<Rightarrow> bool" where
  "is_hop_distance adjacency k m n \<longleftrightarrow>
     (k, m) \<in> edges adjacency ^^ n \<and> (\<forall>n'. (k, m) \<in> edges adjacency ^^ n' \<longrightarrow> n \<le> n')"

text \<open>
  The invariants of the breadth-first search, for the \<open>while\<close> loop (\<open>bfs_inv\<close>) and
  for the \<open>for\<close> loop over the neighbours of the node \<open>u\<close> taken from the queue, of
  which \<open>seen\<close> have been looked at (\<open>visit_inv\<close>). A node is finished when all its
  neighbours are visited and at most one hop farther than itself.
\<close>

definition finished :: "adjacency \<Rightarrow> bool list \<Rightarrow> nat list \<Rightarrow> nat \<Rightarrow> bool" where
  "finished adjacency vis dst w \<longleftrightarrow>
     (\<forall>m \<in> set (adjacency w). m < length vis \<and> vis ! m \<and> dst ! m \<le> dst ! w + 1)"

definition bfs_inv :: "adjacency \<Rightarrow> nat \<Rightarrow> bfs_state \<Rightarrow> bool" where
  "bfs_inv adjacency k st \<longleftrightarrow>
     (case st of (vis, dst, q) \<Rightarrow>
        length dst = length vis \<and> k < length vis \<and> vis ! k \<and> dst ! k = 0
        \<and> (\<forall>m \<in> set q. m < length vis \<and> vis ! m)
        \<and> (\<forall>m < length vis. \<not> vis ! m \<longrightarrow> dst ! m = 0)
        \<and> (\<forall>m < length vis. vis ! m \<longrightarrow> (k, m) \<in> edges adjacency ^^ (dst ! m))
        \<and> (\<forall>w < length vis. vis ! w \<and> w \<notin> set q \<longrightarrow> finished adjacency vis dst w)
        \<and> sorted (map ((!) dst) q)
        \<and> (\<forall>m < length vis. vis ! m \<longrightarrow> (\<forall>h \<in> set q. dst ! m \<le> dst ! h + 1)))"

definition visit_inv :: "adjacency \<Rightarrow> nat \<Rightarrow> nat \<Rightarrow> nat list \<Rightarrow> bfs_state \<Rightarrow> bool" where
  "visit_inv adjacency k u seen st \<longleftrightarrow>
     (case st of (vis, dst, q) \<Rightarrow>
        length dst = length vis \<and> k < length vis \<and> vis ! k \<and> dst ! k = 0
        \<and> u < length vis \<and> vis ! u
        \<and> (\<forall>m \<in> set q. m < length vis \<and> vis ! m)
        \<and> (\<forall>m < length vis. \<not> vis ! m \<longrightarrow> dst ! m = 0)
        \<and> (\<forall>m < length vis. vis ! m \<longrightarrow> (k, m) \<in> edges adjacency ^^ (dst ! m))
        \<and> (\<forall>w < length vis. vis ! w \<and> w \<notin> set q \<and> w \<noteq> u \<longrightarrow> finished adjacency vis dst w)
        \<and> (\<forall>m \<in> set seen. m < length vis \<and> vis ! m \<and> dst ! m \<le> dst ! u + 1)
        \<and> sorted (map ((!) dst) q)
        \<and> (\<forall>h \<in> set q. dst ! u \<le> dst ! h \<and> dst ! h \<le> dst ! u + 1)
        \<and> (\<forall>m < length vis. vis ! m \<longrightarrow> dst ! m \<le> dst ! u + 1))"

section \<open>Example data\<close>

text \<open>
  A physical network of three nodes with the capacities 10, 5 and 20, one link between the
  nodes 0 and 1 (node 2 is isolated), the feature list that \<open>get_node_features_matrix\<close>
  computes for it, and a scoring network that gives every node the same probability.
\<close>

definition example_nodes :: "physical_node list" where
  "example_nodes =
     [\<lparr>node_id = ''node_0'', cpu_capacity = 10, security_level = 1\<rparr>,
      \<lparr>node_id = ''node_1'', cpu_capacity = 5, security_level = 2\<rparr>,
      \<lparr>node_id = ''node_2'', cpu_capacity = 20, security_level = 3\<rparr>]"

definition example_links :: "physical_link list" where
  "example_links = [\<lparr>source = 0, target = 1, bandwidth = 10, delay = 4\<rparr>]"

definition example_features :: "node_feature list" where
  "example_features =
     [\<lparr>Node = ''node_0'', CPU_Resources = 10, Adjacent_Bandwidth = 10,
       Distance_Correlation = 0, Time_Correlation = 4, Security = 1\<rparr>,
      \<lparr>Node = ''node_1'', CPU_Resources = 5, Adjacent_Bandwidth = 10,
       Distance_Correlation = 0, Time_Correlation = 4, Security = 2\<rparr>,
      \<lparr>Node = ''node_2'', CPU_Resources = 20, Adjacent_Bandwidth = 0,
       Distance_Correlation = 0, Time_Correlation = 0, Security = 3\<rparr>]"

definition uniform_policy :: policy where
  "uniform_policy rows = replicate (length rows) (1 / real (length rows))"


definition example_session :: session where
  "example_session = initial_session example_nodes example_features"

text \<open>The adjacency list of the example: node 2 has no neighbour.\<close>

definition example_adjacency :: adjacency where
  "example_adjacency = build_adjacency_list example_links"

text \<open>
  A second physical network on the same link, in which node 0 alone can host the first
  virtual node of the request, and the feature list computed for it.
\<close>

definition single_host_nodes :: "physical_node list" where
  "single_host_nodes =
     [\<lparr>node_id = ''node_0'', cpu_capacity = 10, security_level = 1\<rparr>,
      \<lparr>node_id = ''node_1'', cpu_capacity = 5, security_level = 2\<rparr>,
      \<lparr>node_id = ''node_2'', cpu_capacity = 5, security_level = 3\<rparr>]"

definition single_host_features :: "node_feature list" where
  "single_host_features =
     [\<lparr>Node = ''node_0'', CPU_Resources = 10, Adjacent_Bandwidth = 10,
       Distance_Correlation = 0, Time_Correlation = 4, Security = 1\<rparr>,
      \<lparr>Node = ''node_1'', CPU_Resources = 5, Adjacent_Bandwidth = 10,
       Distance_Correlation = 0, Time_Correlation = 4, Security = 2\<rparr>,
      \<lparr>Node = ''node_2'', CPU_Resources = 5, Adjacent_Bandwidth = 0,
       Distance_Correlation = 0, Time_Correlation = 0, Security = 3\<rparr>]"

definition single_host_session :: session where
  "single_host_session = initial_session single_host_nodes single_host_features"

text \<open>
  A third physical network: the path 0 - 1 - 2 - 3 and the isolated node 4.
\<close>

definition path_nodes :: "physical_node list" where
  "path_nodes =
     [\<lparr>node_id = ''node_0'', cpu_capacity = 10, security_level = 1\<rparr>,
      \<lparr>node_id = ''node_1'', cpu_capacity = 10, security_level = 1\<rparr>,
      \<lparr>node_id = ''node_2'', cpu_capacity = 10, security_level = 1\<rparr>,
      \<lparr>node_id = ''node_3'', cpu_capacity = 10, security_level = 1\<rparr>,
      \<lparr>node_id = ''node_4'', cpu_capacity = 10, security_level = 1\<rparr>]"

definition path_links :: "physical_link list" where
  "path_links =
     [\<lparr>source = 0, target = 1, bandwidth = 10, delay = 4\<rparr>,
      \<lparr>source = 1, target = 2, bandwidth = 10, delay = 4\<rparr>,
      \<lparr>source = 2, target = 3, bandwidth = 10, delay = 4\<rparr>]"

definition path_adjacency :: adjacency where
  "path_adjacency = build_adjacency_list path_links"

text \<open>
  Three more scoring networks: one that puts all the probability on node 1, one whose
  output has four entries, a negative one among them, and the sum 14, and one whose output
  agrees with the latter at the nodes 0 and 2 only.
\<close>

definition node_1_policy :: policy where
  "node_1_policy rows = map (\<lambda>idx. if idx = 1 then 1 else 0) [0 ..< length rows]"

definition invalid_policy :: policy where
  "invalid_policy rows = [3, - 1, 5, 7]"

definition padded_policy :: policy where
  "padded_policy rows = [3, 100, 5]"

section \<open>The weighted draw\<close>

lemma bisect_bounds: "lo \<le> hi \<Longrightarrow> lo \<le> bisect a x lo hi \<and> bisect a x lo hi \<le> hi"
proof (induction a x lo hi rule: bisect.induct)
  case (1 a x lo hi)
  show ?case
  proof (cases "lo < hi")
    case False
    with "1.prems" show ?thesis by (simp add: bisect.simps)
  next
    case True
    define mid where "mid = (lo + hi) div 2"
    from True have m: "lo \<le> mid" "mid < hi" by (simp_all add: mid_def)
    show ?thesis
    proof (cases "x < a ! mid")
      case True
      from "1.IH"(1) [OF \<open>lo < hi\<close> mid_def True] m
      have "lo \<le> bisect a x lo mid \<and> bisect a x lo mid \<le> mid" by simp
      moreover have "bisect a x lo hi = bisect a x lo mid"
        using \<open>lo < hi\<close> True by (subst bisect.simps) (simp add: mid_def Let_def)
      ultimately show ?thesis using m by simp
    next
      case False
      from "1.IH"(2) [OF \<open>lo < hi\<close> mid_def False] m
      have "mid + 1 \<le> bisect a x (mid + 1) hi \<and> bisect a x (mid + 1) hi \<le> hi" by simp
      moreover have "bisect a x lo hi = bisect a x (mid + 1) hi"
        using \<open>lo < hi\<close> False by (subst bisect.simps) (simp add: mid_def Let_def)
      ultimately show ?thesis using m by simp
    qed
  qed
qed

lemma length_accumulate: "length (accumulate acc ws) = length ws"
  by (induction ws arbitrary: acc) simp_all

lemma last_accumulate: "ws \<noteq> [] \<Longrightarrow> last (accumulate acc ws) = acc + sum_list ws"
proof (induction ws arbitrary: acc)
  case Nil
  then show ?case by simp
next
  case (Cons w ws)
  show ?case
  proof (cases ws)
    case Nil
    then show ?thesis by simp
  next
    case (Cons v vs)
    then have "ws \<noteq> []" by simp
    from Cons.IH [OF this, of "acc + w"] \<open>ws \<noteq> []\<close> show ?thesis
      by (cases ws) (simp_all add: add.assoc)
  qed
qed

lemma sum_list_normalized_probs:
  "sum_list eligible_probs \<noteq> 0 \<Longrightarrow> sum_list (normalized_probs eligible_probs) = 1"
proof -
  assume nz: "sum_list eligible_probs \<noteq> 0"
  have "sum_list (map (\<lambda>prob. prob * inverse (sum_list eligible_probs)) eligible_probs)
        = sum_list eligible_probs * inverse (sum_list eligible_probs)"
    using sum_list_mult_const [of "\<lambda>p. p" "inverse (sum_list eligible_probs)" eligible_probs]
    by simp
  with nz show ?thesis
    by (simp add: normalized_probs_def divide_inverse)
qed

lemma length_normalized_probs: "length (normalized_probs ps) = length ps"
  by (simp add: normalized_probs_def)

lemma random_choices_normalized:
  assumes "length eligible_nodes = length eligible_probs" "eligible_nodes \<noteq> []"
    "sum_list eligible_probs \<noteq> 0"
  shows "random_choices eligible_nodes (normalized_probs eligible_probs) r =
         Inr (eligible_nodes !
                bisect (accumulate 0 (normalized_probs eligible_probs)) r 0
                  (length eligible_nodes - 1))"
proof -
  have ne: "normalized_probs eligible_probs \<noteq> []"
    using assms(1,2) length_normalized_probs [of eligible_probs] by auto
  then have "accumulate 0 (normalized_probs eligible_probs) \<noteq> []"
    using length_accumulate [of 0 "normalized_probs eligible_probs"] by auto
  moreover have "last (accumulate 0 (normalized_probs eligible_probs)) = 1"
    using last_accumulate [OF ne, of 0] sum_list_normalized_probs [OF assms(3)] by simp
  ultimately show ?thesis
    using assms(1)
    by (simp add: random_choices_def Let_def length_accumulate length_normalized_probs)
qed

section \<open>One mapping decision\<close>

lemma filter_eligible_eq:
  "filter_eligible xs probs req en ep =
     (if \<forall>(i, f) \<in> set xs. CPU_Resources f \<ge> req \<longrightarrow> i < length probs
      then Inr (en @ map fst (filter (\<lambda>(i, f). CPU_Resources f \<ge> req) xs),
                ep @ map (\<lambda>(i, f). probs ! i) (filter (\<lambda>(i, f). CPU_Resources f \<ge> req) xs))
      else Inl IndexError)"
  by (induction xs probs req en ep rule: filter_eligible.induct) auto

lemma enumerate_as_map: "enumerate 0 xs = map (\<lambda>i. (i, xs ! i)) [0 ..< length xs]"
  by (rule nth_equalityI) (simp_all add: nth_enumerate_eq)

lemma filter_enumerate_fst:
  "map fst (filter (\<lambda>(i, f). P f) (enumerate 0 xs)) = filter (\<lambda>i. P (xs ! i)) [0 ..< length xs]"
  by (simp add: enumerate_as_map filter_map comp_def)

lemma filter_enumerate_probs:
  "map (\<lambda>(i, f). probs ! i) (filter (\<lambda>(i, f). P f) (enumerate 0 xs))
   = map ((!) probs) (filter (\<lambda>i. P (xs ! i)) [0 ..< length xs])"
  by (simp add: enumerate_as_map filter_map comp_def)

lemma filter_eligible_enumerate:
  "filter_eligible (enumerate 0 features) probs req [] [] =
     (if \<forall>i \<in> set (eligible_indices features req). i < length probs
      then Inr (eligible_indices features req, map ((!) probs) (eligible_indices features req))
      else Inl IndexError)"
proof -
  have "(\<forall>(i, f) \<in> set (enumerate 0 features). CPU_Resources f \<ge> req \<longrightarrow> i < length probs)
        \<longleftrightarrow> (\<forall>i \<in> set (eligible_indices features req). i < length probs)"
    by (auto simp: enumerate_as_map eligible_indices_def)
  then show ?thesis
    unfolding filter_eligible_eq eligible_indices_def
    by (simp only: filter_enumerate_fst filter_enumerate_probs append_Nil)
qed

lemma map_virtual_node_eq:
  "map_virtual_node features policy_net req r =
     (let probs = policy_net (features_rows features);
          en = eligible_indices features req;
          ep = map ((!) probs) en
      in if features = [] then Inl RuntimeError
         else if \<exists>i \<in> set en. length probs \<le> i then Inl IndexError
         else if en = [] then Inl ValueError
         else if sum_list ep = 0 then Inl ZeroDivisionError
         else Inr (probs, en ! bisect (accumulate 0 (normalized_probs ep)) r 0 (length en - 1)))"
proof -
  define probs where "probs = policy_net (features_rows features)"
  define en where "en = eligible_indices features req"
  define ep where "ep = map ((!) probs) en"
  have fe: "filter_eligible (enumerate 0 features) probs req [] [] =
        (if \<exists>i \<in> set en. length probs \<le> i then Inl IndexError else Inr (en, ep))"
    unfolding filter_eligible_enumerate en_def ep_def by (auto simp: not_le)
  have rc: "en \<noteq> [] \<Longrightarrow> sum_list ep \<noteq> 0 \<Longrightarrow>
        random_choices en (normalized_probs ep) r =
        Inr (en ! bisect (accumulate 0 (normalized_probs ep)) r 0 (length en - 1))"
    using random_choices_normalized [of en ep r] by (simp add: ep_def)
  have "map_virtual_node features policy_net req r =
     (if features = [] then Inl RuntimeError
      else if \<exists>i \<in> set en. length probs \<le> i then Inl IndexError
      else if en = [] then Inl ValueError
      else if sum_list ep = 0 then Inl ZeroDivisionError
      else Inr (probs, en ! bisect (accumulate 0 (normalized_probs ep)) r 0 (length en - 1)))"
    unfolding map_virtual_node_def Let_def probs_def [symmetric] fe
    using rc by simp
  then show ?thesis
    by (simp only: Let_def probs_def en_def ep_def)
qed

lemma eligible_indices_iff:
  "i \<in> set (eligible_indices features req) \<longleftrightarrow> i < length features \<and> CPU_Resources (features ! i) \<ge> req"
  by (auto simp: eligible_indices_def)

lemma map_virtual_node_selected:
  assumes "map_virtual_node features policy_net req r = Inr (probs, sel)"
  shows "sel \<in> set (eligible_indices features req)"
proof -
  define en where "en = eligible_indices features req"
  define ep where "ep = map ((!) (policy_net (features_rows features))) en"
  define b where "b = bisect (accumulate 0 (normalized_probs ep)) r 0 (length en - 1)"
  have eq: "map_virtual_node features policy_net req r =
     (if features = [] then Inl RuntimeError
      else if \<exists>i \<in> set en. length (policy_net (features_rows features)) \<le> i then Inl IndexError
      else if en = [] then Inl ValueError
      else if sum_list ep = 0 then Inl ZeroDivisionError
      else Inr (policy_net (features_rows features), en ! b))"
    by (simp only: map_virtual_node_eq Let_def en_def ep_def b_def)
  from assms have ne: "en \<noteq> []"
    unfolding eq by (simp split: if_splits)
  from assms have sel: "sel = en ! b"
    unfolding eq by (simp split: if_splits)
  from bisect_bounds [of 0 "length en - 1"] have "b \<le> length en - 1"
    by (simp add: b_def)
  with ne have "b < length en"
    by (cases en) simp_all
  with sel show ?thesis by (simp add: en_def)
qed

section \<open>One step of the session\<close>

lemma main_step_no_eligible:
  assumes "node_features s \<noteq> []" "eligible_indices (node_features s) (cpu_req v_node) = []"
  shows "main_step policy_net random s v_node = Inr s"
proof -
  from assms have "map_virtual_node (node_features s) policy_net (cpu_req v_node) (random (draws s))
        = Inl ValueError"
    by (simp add: map_virtual_node_eq Let_def)
  then show ?thesis by (simp add: main_step_def)
qed

lemma main_step_cases:
  assumes "main_step policy_net random s v_node = Inr s'"
  shows "s' = s \<or> (\<exists>sel \<in> set (eligible_indices (node_features s) (cpu_req v_node)).
            sel < length (physical_nodes s) \<and> s' = commit s v_node sel)"
proof (cases "map_virtual_node (node_features s) policy_net (cpu_req v_node) (random (draws s))")
  case (Inl e)
  with assms show ?thesis
    by (simp add: main_step_def split: if_splits)
next
  case (Inr res)
  obtain probs sel where res: "res = (probs, sel)" by (cases res) auto
  from map_virtual_node_selected [OF Inr [unfolded res]]
  have "sel \<in> set (eligible_indices (node_features s) (cpu_req v_node))" .
  moreover from assms Inr res
  have "sel < length (physical_nodes s) \<and> s' = commit s v_node sel"
    by (simp add: main_step_def split: if_splits)
  ultimately show ?thesis by blast
qed

lemma cpu_capacity_deduct:
  "cpu_capacity (deduct_capacity p a) = max 0 (cpu_capacity p - a)"
  by (simp add: deduct_capacity_def Let_def)

lemma physical_nodes_commit:
  "physical_nodes (commit s v sel) =
     (physical_nodes s)[sel := deduct_capacity (physical_nodes s ! sel) (cpu_req v)]"
  by (simp add: commit_def Let_def)

lemma node_features_commit:
  "sel < length (physical_nodes s) \<Longrightarrow>
   node_features (commit s v sel) =
     (node_features s)[sel := (node_features s ! sel)
        \<lparr>CPU_Resources := max 0 (cpu_capacity (physical_nodes s ! sel) - cpu_req v)\<rparr>]"
  by (simp add: commit_def Let_def cpu_capacity_deduct)

lemma mapped_nodes_commit: "mapped_nodes (commit s v sel) = mapped_nodes s @ [sel]"
  by (simp add: commit_def Let_def)

lemma mapping_results_commit:
  "mapping_results (commit s v sel) =
     mapping_results s @ [\<lparr>virtual_node = node v,
                           mapped_physical_node = node_id (physical_nodes s ! sel)\<rparr>]"
  by (simp add: commit_def Let_def)

lemma features_in_sync_commit:
  assumes "features_in_sync s" "sel < length (physical_nodes s)"
  shows "features_in_sync (commit s v sel)"
proof -
  from assms(1) have len: "length (node_features s) = length (physical_nodes s)"
    unfolding features_in_sync_def by (metis length_map)
  show ?thesis
    unfolding features_in_sync_def physical_nodes_commit node_features_commit [OF assms(2)]
    using assms len
    by (simp add: features_in_sync_def map_update cpu_capacity_deduct)
qed

lemma features_in_sync_step:
  assumes "features_in_sync s" "main_step policy_net random s v_node = Inr s'"
  shows "features_in_sync s'"
  using main_step_cases [OF assms(2)] assms(1) features_in_sync_commit by blast

lemma features_in_sync_loop:
  "features_in_sync s \<Longrightarrow> main_loop policy_net random s vs = Inr s' \<Longrightarrow> features_in_sync s'"
proof (induction vs arbitrary: s)
  case Nil
  then show ?case by simp
next
  case (Cons v vs)
  then show ?case
    by (auto split: sum.splits dest: features_in_sync_step)
qed

lemma main_loop_append:
  "main_loop policy_net random s (xs @ ys) =
     (case main_loop policy_net random s xs of
        Inl e \<Rightarrow> Inl e
      | Inr s1 \<Rightarrow> main_loop policy_net random s1 ys)"
  by (induction xs arbitrary: s) (simp_all split: sum.splits)

lemma features_in_sync_eligible:
  assumes "features_in_sync s"
  shows "eligible_indices (node_features s) req =
         filter (\<lambda>i. cpu_capacity (physical_nodes s ! i) \<ge> req) [0 ..< length (physical_nodes s)]"
proof -
  from assms have len: "length (node_features s) = length (physical_nodes s)"
    unfolding features_in_sync_def by (metis length_map)
  have "CPU_Resources (node_features s ! i) = cpu_capacity (physical_nodes s ! i)"
    if "i < length (physical_nodes s)" for i
    using assms that len unfolding features_in_sync_def
    by (metis nth_map)
  then show ?thesis
    unfolding eligible_indices_def len
    by (intro filter_cong) auto
qed

lemma length_distance_corr_loop:
  "distance_corr_loop adjacency n mapped ks = Inr dc \<Longrightarrow> length dc = length ks"
  by (induction ks arbitrary: dc) (auto split: sum.splits)

lemma get_node_features_matrix_Inr:
  assumes "get_node_features_matrix nodes links mapped = Inr features"
  obtains adj_bandwidth distance_corr time_corr where
    "get_adjacent_link_bandwidth nodes links = Inr adj_bandwidth"
    "get_distance_correlation nodes (build_adjacency_list links) mapped = Inr distance_corr"
    "get_time_correlation nodes links = Inr time_corr"
    "features = map (\<lambda>idx.
        \<lparr>Node = ''node_'' @ str_nat idx,
         CPU_Resources = get_node_computing_resources nodes ! idx,
         Adjacent_Bandwidth = adj_bandwidth ! idx,
         Distance_Correlation = distance_corr ! idx,
         Time_Correlation = time_corr ! idx,
         Security = get_node_security nodes ! idx\<rparr>) [0 ..< length nodes]"
proof (cases "get_adjacent_link_bandwidth nodes links")
  case (Inl e)
  with assms show ?thesis by (simp add: get_node_features_matrix_def)
next
  case bw: (Inr adj_bandwidth)
  show ?thesis
  proof (cases "get_distance_correlation nodes (build_adjacency_list links) mapped")
    case (Inl e)
    with assms bw show ?thesis by (simp add: get_node_features_matrix_def)
  next
    case dc: (Inr distance_corr)
    show ?thesis
    proof (cases "get_time_correlation nodes links")
      case (Inl e)
      with assms bw dc show ?thesis by (simp add: get_node_features_matrix_def)
    next
      case tc: (Inr time_corr)
      from assms bw dc tc have
        "features = map (\<lambda>idx.
        \<lparr>Node = ''node_'' @ str_nat idx,
         CPU_Resources = get_node_computing_resources nodes ! idx,
         Adjacent_Bandwidth = adj_bandwidth ! idx,
         Distance_Correlation = distance_corr ! idx,
         Time_Correlation = time_corr ! idx,
         Security = get_node_security nodes ! idx\<rparr>) [0 ..< length nodes]"
        by (simp add: get_node_features_matrix_def)
      with bw dc tc that show ?thesis by blast
    qed
  qed
qed

lemma get_node_features_matrix_cpu:
  assumes "get_node_features_matrix nodes links mapped = Inr features"
  shows "map CPU_Resources features = map cpu_capacity nodes"
proof (rule get_node_features_matrix_Inr [OF assms])
  fix adj_bandwidth :: "int list" and distance_corr time_corr :: "real list"
  assume feat: "features = map (\<lambda>idx.
        \<lparr>Node = ''node_'' @ str_nat idx,
         CPU_Resources = get_node_computing_resources nodes ! idx,
         Adjacent_Bandwidth = adj_bandwidth ! idx,
         Distance_Correlation = distance_corr ! idx,
         Time_Correlation = time_corr ! idx,
         Security = get_node_security nodes ! idx\<rparr>) [0 ..< length nodes]"
  show ?thesis
    by (rule nth_equalityI) (simp_all add: feat get_node_computing_resources_def)
qed

lemma features_in_sync_initial:
  "get_node_features_matrix nodes links mapped = Inr features \<Longrightarrow>
   features_in_sync (initial_session nodes features)"
  by (simp add: features_in_sync_def initial_session_def get_node_features_matrix_cpu)

lemma length_physical_nodes_step:
  "main_step policy_net random s v = Inr s' \<Longrightarrow> length (physical_nodes s') = length (physical_nodes s)"
  using main_step_cases [of policy_net random s v s'] by (auto simp: physical_nodes_commit)

lemma nonneg_commit:
  assumes "\<forall>q \<in> set (physical_nodes s). 0 \<le> cpu_capacity q"
  shows "\<forall>q \<in> set (physical_nodes (commit s v sel)). 0 \<le> cpu_capacity q"
proof
  fix q assume "q \<in> set (physical_nodes (commit s v sel))"
  then have "q \<in> insert (deduct_capacity (physical_nodes s ! sel) (cpu_req v)) (set (physical_nodes s))"
    unfolding physical_nodes_commit
    using set_update_subset_insert [of "physical_nodes s" sel] by blast
  with assms show "0 \<le> cpu_capacity q"
    by (auto simp: cpu_capacity_deduct)
qed

lemma nonneg_step:
  assumes "\<forall>q \<in> set (physical_nodes s). 0 \<le> cpu_capacity q"
    "main_step policy_net random s v = Inr s'"
  shows "\<forall>q \<in> set (physical_nodes s'). 0 \<le> cpu_capacity q"
  using main_step_cases [OF assms(2)] assms(1) nonneg_commit by blast

lemma nonneg_loop:
  "\<forall>q \<in> set (physical_nodes s). 0 \<le> cpu_capacity q \<Longrightarrow>
   main_loop policy_net random s vs = Inr s' \<Longrightarrow>
   \<forall>q \<in> set (physical_nodes s'). 0 \<le> cpu_capacity q"
proof (induction vs arbitrary: s)
  case Nil
  then show ?case by simp
next
  case (Cons v vs)
  from Cons.prems(2) obtain s1 where
    s1: "main_step policy_net random s v = Inr s1" "main_loop policy_net random s1 vs = Inr s'"
    by (auto split: sum.splits)
  from Cons.IH [OF nonneg_step [OF Cons.prems(1) s1(1)] s1(2)] show ?case .
qed

text \<open>The names recorded in \<open>mapping_results\<close> are names of processed virtual nodes.\<close>

lemma mapping_results_step:
  assumes "main_step policy_net random s v = Inr s'"
  shows "set (map virtual_node (mapping_results s')) \<subseteq>
         insert (node v) (set (map virtual_node (mapping_results s)))"
  using main_step_cases [OF assms] by (auto simp: mapping_results_commit)

lemma mapping_results_loop:
  "main_loop policy_net random s vs = Inr s' \<Longrightarrow>
   set (map virtual_node (mapping_results s')) \<subseteq>
     set (map virtual_node (mapping_results s)) \<union> set (map node vs)"
proof (induction vs arbitrary: s)
  case Nil
  then show ?case by simp
next
  case (Cons v vs)
  from Cons.prems obtain s1 where
    s1: "main_step policy_net random s v = Inr s1" "main_loop policy_net random s1 vs = Inr s'"
    by (auto split: sum.splits)
  from Cons.IH [OF s1(2)] mapping_results_step [OF s1(1)] show ?case
    by auto
qed

lemma example_features_matrix:
  "get_node_features_matrix example_nodes example_links [] = Inr example_features"
  by code_simp

lemma length_physical_nodes_loop:
  "main_loop policy_net random s vs = Inr s' \<Longrightarrow> length (physical_nodes s') = length (physical_nodes s)"
proof (induction vs arbitrary: s)
  case Nil
  then show ?case by simp
next
  case (Cons v vs)
  from Cons.prems obtain s1 where
    s1: "main_step policy_net random s v = Inr s1" "main_loop policy_net random s1 vs = Inr s'"
    by (auto split: sum.splits)
  from Cons.IH [OF s1(2)] length_physical_nodes_step [OF s1(1)] show ?case by simp
qed

lemma main_step_unmapped:
  assumes "physical_nodes s \<noteq> []" and "features_in_sync s"
    and "\<forall>q \<in> set (physical_nodes s). cpu_capacity q < cpu_req v_node"
  shows "main_step policy_net random s v_node = Inr s"
proof -
  from assms(2) have len: "length (node_features s) = length (physical_nodes s)"
    unfolding features_in_sync_def by (metis length_map)
  with assms(1) have ne: "node_features s \<noteq> []" by auto
  have "eligible_indices (node_features s) (cpu_req v_node) = []"
    unfolding features_in_sync_eligible [OF assms(2)] using assms(3)
    by (auto simp: filter_empty_conv not_le)
  from main_step_no_eligible [OF ne this] show ?thesis .
qed

section \<open>A virtual node that no physical node can host\<close>

text \<open>
  Claim C10. A failed mapping step is atomic. In a session whose feature list carries the
  capacities of a non-empty list of physical nodes, a virtual node that requires more than
  every capacity leaves the step with the very same session: no capacity is deducted, the
  feature list and \<open>mapped_nodes\<close> are unchanged, no entry is appended to
  \<open>mapping_results\<close>, and no value of \<open>random()\<close> is taken. The loop goes on with the
  remaining virtual nodes from that session, so the failure shows only in the set of
  unmapped virtual nodes computed at the end.
\<close>

theorem failed_step_changes_nothing:
  assumes "physical_nodes s \<noteq> []" and "features_in_sync s"
    and "\<forall>q \<in> set (physical_nodes s). cpu_capacity q < cpu_req v_node"
  shows "main_step policy_net random s v_node = Inr s
         \<and> main_loop policy_net random s (v_node # rest) = main_loop policy_net random s rest"
  using main_step_unmapped [OF assms] by simp

theorem failed_step_changes_nothing_witness:
  "main_step uniform_policy (\<lambda>_. 0) (initial_session example_nodes example_features)
     \<lparr>node = ''Virtual_Node_1'', cpu_req = 30, safety_req = 2\<rparr>
   = Inr (initial_session example_nodes example_features)"
proof -
  let ?s = "initial_session example_nodes example_features"
  have 1: "physical_nodes ?s \<noteq> []"
    by (simp add: initial_session_def example_nodes_def)
  have 2: "features_in_sync ?s"
    by (simp add: features_in_sync_def initial_session_def example_nodes_def example_features_def)
  have 3: "\<forall>q \<in> set (physical_nodes ?s).
             cpu_capacity q < cpu_req \<lparr>node = ''Virtual_Node_1'', cpu_req = 30, safety_req = 2\<rparr>"
    by (simp add: initial_session_def example_nodes_def)
  from failed_step_changes_nothing [OF 1 2 3] show ?thesis by simp
qed

text \<open>
  Claim C5. Let \<open>main\<close> have processed the virtual nodes \<open>pre\<close> and reached the session
  \<open>s\<close>, in which every physical node has less capacity than the next virtual node
  \<open>v_node\<close> requires. Then the session is not aborted: the result of \<open>main\<close> on the whole
  request is what the loop yields on the remaining virtual nodes \<open>post\<close>, in their order,
  started from \<open>s\<close>; and whenever the session completes, the name of \<open>v_node\<close> is in the
  set of unmapped virtual nodes. The names of the virtual nodes are distinct (the set is
  computed from names) and there is at least one physical node.
\<close>

theorem unmapped_node_session_continues:
  assumes "get_node_features_matrix nodes links [] = Inr features"
    and "main_loop policy_net random (initial_session nodes features) pre = Inr s"
    and "nodes \<noteq> []"
    and "\<forall>q \<in> set (physical_nodes s). cpu_capacity q < cpu_req v_node"
    and "distinct (map node (pre @ v_node # post))"
  shows "main policy_net random nodes links (pre @ v_node # post) =
           (case main_loop policy_net random s post of
              Inl e \<Rightarrow> Inl e
            | Inr s' \<Rightarrow> Inr (mapping_results s',
                 unmapped_virtual_nodes (pre @ v_node # post) (mapping_results s')))
         \<and> (\<forall>s'. main_loop policy_net random s post = Inr s' \<longrightarrow>
                node v_node \<in> unmapped_virtual_nodes (pre @ v_node # post) (mapping_results s'))"
proof -
  let ?s0 = "initial_session nodes features"
  have sync: "features_in_sync s"
    using features_in_sync_loop [OF features_in_sync_initial [OF assms(1)] assms(2)] .
  have "length (physical_nodes s) = length (physical_nodes ?s0)"
    using length_physical_nodes_loop [OF assms(2)] .
  with assms(3) have ne: "physical_nodes s \<noteq> []"
    by (auto simp: initial_session_def)
  have step: "main_step policy_net random s v_node = Inr s"
    using main_step_unmapped [OF ne sync assms(4)] .
  have loop: "main_loop policy_net random ?s0 (pre @ v_node # post) = main_loop policy_net random s post"
    by (simp add: main_loop_append assms(2) step)
  have first: "main policy_net random nodes links (pre @ v_node # post) =
           (case main_loop policy_net random s post of
              Inl e \<Rightarrow> Inl e
            | Inr s' \<Rightarrow> Inr (mapping_results s',
                 unmapped_virtual_nodes (pre @ v_node # post) (mapping_results s')))"
    by (simp add: main_def assms(1) loop)
  have second: "node v_node \<in> unmapped_virtual_nodes (pre @ v_node # post) (mapping_results s')"
    if fin: "main_loop policy_net random s post = Inr s'" for s'
  proof -
    from mapping_results_loop [OF assms(2)]
    have a: "set (map virtual_node (mapping_results s)) \<subseteq> set (map node pre)"
      by (simp add: initial_session_def)
    from mapping_results_loop [OF fin] a
    have "set (map virtual_node (mapping_results s')) \<subseteq> set (map node pre) \<union> set (map node post)"
      by blast
    moreover from assms(5) have "node v_node \<notin> set (map node pre) \<union> set (map node post)"
      by auto
    ultimately show ?thesis
      by (auto simp: unmapped_virtual_nodes_def)
  qed
  from first second show ?thesis by blast
qed

theorem unmapped_node_session_continues_witness:
  "main_loop uniform_policy (\<lambda>_. 0) example_session (take 2 virtual_network_request)
     = Inr (commit (commit example_session (virtual_network_request ! 0) 0)
              (virtual_network_request ! 1) 2)
   \<and> main uniform_policy (\<lambda>_. 0) example_nodes example_links virtual_network_request
     = Inr ([\<lparr>virtual_node = ''Virtual_Node_1'', mapped_physical_node = ''node_0''\<rparr>,
             \<lparr>virtual_node = ''Virtual_Node_2'', mapped_physical_node = ''node_2''\<rparr>],
            {''Virtual_Node_3'', ''Virtual_Node_4'', ''Virtual_Node_5''})
   \<and> ''Virtual_Node_3'' \<in> unmapped_virtual_nodes virtual_network_request
         [\<lparr>virtual_node = ''Virtual_Node_1'', mapped_physical_node = ''node_0''\<rparr>,
          \<lparr>virtual_node = ''Virtual_Node_2'', mapped_physical_node = ''node_2''\<rparr>]"
proof -
  let ?s = "commit (commit example_session (virtual_network_request ! 0) 0)
              (virtual_network_request ! 1) 2"
  let ?pre = "take 2 virtual_network_request"
  let ?v = "virtual_network_request ! 2"
  let ?post = "drop 3 virtual_network_request"
  have split: "?pre @ ?v # ?post = virtual_network_request"
    by (simp add: virtual_network_request_def)
  have 1: "get_node_features_matrix example_nodes example_links [] = Inr example_features"
    by (rule example_features_matrix)
  have 2: "main_loop uniform_policy (\<lambda>_. 0) (initial_session example_nodes example_features) ?pre
           = Inr ?s"
    by code_simp
  have 3: "example_nodes \<noteq> []"
    by (simp add: example_nodes_def)
  have 4: "\<forall>q \<in> set (physical_nodes ?s). cpu_capacity q < cpu_req ?v"
    by code_simp
  have 5: "distinct (map node (?pre @ ?v # ?post))"
    unfolding split by (simp add: virtual_network_request_def)
  have 6: "main_loop uniform_policy (\<lambda>_. 0) ?s ?post = Inr ?s"
    by code_simp
  have 7: "mapping_results ?s =
     [\<lparr>virtual_node = ''Virtual_Node_1'', mapped_physical_node = ''node_0''\<rparr>,
      \<lparr>virtual_node = ''Virtual_Node_2'', mapped_physical_node = ''node_2''\<rparr>]"
    by code_simp
  have 8: "unmapped_virtual_nodes virtual_network_request
     [\<lparr>virtual_node = ''Virtual_Node_1'', mapped_physical_node = ''node_0''\<rparr>,
      \<lparr>virtual_node = ''Virtual_Node_2'', mapped_physical_node = ''node_2''\<rparr>]
     = {''Virtual_Node_3'', ''Virtual_Node_4'', ''Virtual_Node_5''}"
    by code_simp
  from unmapped_node_session_continues [OF 1 2 3 4 5, unfolded split] 2 6 7 8
  show ?thesis
    by (simp add: example_session_def)
qed

section \<open>Eligibility and capacity\<close>

text \<open>
  Claim C3. At every mapping step of a session, that is, in the session \<open>s\<close> that \<open>main\<close>
  has reached after any list \<open>pre\<close> of virtual nodes: the list of eligible indices that the
  filter loop builds is exactly the list of the physical nodes whose current
  \<open>cpu_capacity\<close> is at least the \<open>cpu_req\<close> of the virtual node; whatever the scoring
  network returns and whatever \<open>random()\<close> returns, a node selected by
  \<open>map_virtual_node\<close> is one of them; and a step of \<open>main\<close> either leaves the session as
  it is or commits a node whose capacity meets the requirement.
\<close>

theorem selection_within_eligible_subset:
  assumes "get_node_features_matrix nodes links [] = Inr features"
    and "main_loop policy_net random (initial_session nodes features) pre = Inr s"
  shows "(\<forall>probs en ep.
            filter_eligible (enumerate 0 (node_features s)) probs (cpu_req v_node) [] [] = Inr (en, ep)
            \<longrightarrow> en = filter (\<lambda>i. cpu_req v_node \<le> cpu_capacity (physical_nodes s ! i))
                       [0 ..< length (physical_nodes s)])
       \<and> (\<forall>r probs sel.
            map_virtual_node (node_features s) policy_net (cpu_req v_node) r = Inr (probs, sel)
            \<longrightarrow> sel < length (physical_nodes s)
                \<and> cpu_req v_node \<le> cpu_capacity (physical_nodes s ! sel))
       \<and> (\<forall>s'. main_step policy_net random s v_node = Inr s'
            \<longrightarrow> s' = s \<or> (\<exists>sel < length (physical_nodes s).
                    cpu_req v_node \<le> cpu_capacity (physical_nodes s ! sel)
                    \<and> s' = commit s v_node sel))"
proof -
  have sync: "features_in_sync s"
    using features_in_sync_loop [OF features_in_sync_initial [OF assms(1)] assms(2)] .
  note el = features_in_sync_eligible [OF sync, of "cpu_req v_node"]
  have mem: "sel < length (physical_nodes s) \<and> cpu_req v_node \<le> cpu_capacity (physical_nodes s ! sel)"
    if "sel \<in> set (eligible_indices (node_features s) (cpu_req v_node))" for sel
    using that unfolding el by simp
  have a: "en = filter (\<lambda>i. cpu_req v_node \<le> cpu_capacity (physical_nodes s ! i))
                       [0 ..< length (physical_nodes s)]"
    if "filter_eligible (enumerate 0 (node_features s)) probs (cpu_req v_node) [] [] = Inr (en, ep)"
    for probs en ep
    using that unfolding filter_eligible_enumerate el [symmetric]
    by (simp split: if_splits)
  have b: "sel < length (physical_nodes s) \<and> cpu_req v_node \<le> cpu_capacity (physical_nodes s ! sel)"
    if "map_virtual_node (node_features s) policy_net (cpu_req v_node) r = Inr (probs, sel)"
    for r probs sel
    using mem [OF map_virtual_node_selected [OF that]] .
  have c: "s' = s \<or> (\<exists>sel < length (physical_nodes s).
                    cpu_req v_node \<le> cpu_capacity (physical_nodes s ! sel)
                    \<and> s' = commit s v_node sel)"
    if "main_step policy_net random s v_node = Inr s'" for s'
    using main_step_cases [OF that] mem by blast
  from a b c show ?thesis by blast
qed

theorem selection_within_eligible_subset_witness:
  "filter_eligible (enumerate 0 example_features) (uniform_policy (features_rows example_features))
     8 [] [] = Inr ([0, 2], [1 / 3, 1 / 3])
   \<and> map_virtual_node example_features uniform_policy 8 (9 / 10) = Inr ([1 / 3, 1 / 3, 1 / 3], 2)
   \<and> main_step uniform_policy (\<lambda>_. 9 / 10) example_session
        \<lparr>node = ''Virtual_Node_1'', cpu_req = 8, safety_req = 2\<rparr>
      = Inr (commit example_session \<lparr>node = ''Virtual_Node_1'', cpu_req = 8, safety_req = 2\<rparr> 2)"
proof -
  let ?v = "\<lparr>node = ''Virtual_Node_1'', cpu_req = 8, safety_req = 2\<rparr>"
  have 1: "get_node_features_matrix example_nodes example_links [] = Inr example_features"
    by (rule example_features_matrix)
  have 2: "main_loop uniform_policy (\<lambda>_. 9 / 10) (initial_session example_nodes example_features) []
           = Inr example_session"
    by (simp add: example_session_def)
  have nf: "node_features example_session = example_features"
    by (simp add: example_session_def initial_session_def)
  have a: "filter_eligible (enumerate 0 example_features)
             (uniform_policy (features_rows example_features)) 8 [] [] = Inr ([0, 2], [1 / 3, 1 / 3])"
    by code_simp
  have b: "map_virtual_node example_features uniform_policy 8 (9 / 10) = Inr ([1 / 3, 1 / 3, 1 / 3], 2)"
    by code_simp
  have c: "main_step uniform_policy (\<lambda>_. 9 / 10) example_session ?v = Inr (commit example_session ?v 2)"
    by code_simp
  from selection_within_eligible_subset [OF 1 2, of ?v] a b c show ?thesis
    by (simp add: nf)
qed

text \<open>
  Claim C6. The deduction of lines 79 to 81 leaves \<open>max(0, capacity - cpu_req)\<close>: 2 for
  a requirement of 8 against a capacity of 10, and 0 for a requirement of 15. A commit
  changes the capacity of the selected node to that value and of no other node. If no
  capacity is negative at some point of a session, none is negative after any number of
  further mapping steps.
\<close>

theorem capacity_never_negative:
  "cpu_capacity (deduct_capacity p amount) = max 0 (cpu_capacity p - amount)
   \<and> cpu_capacity (deduct_capacity (p\<lparr>cpu_capacity := 10\<rparr>) 8) = 2
   \<and> cpu_capacity (deduct_capacity (p\<lparr>cpu_capacity := 10\<rparr>) 15) = 0
   \<and> (sel < length (physical_nodes s) \<longrightarrow>
        cpu_capacity (physical_nodes (commit s v_node sel) ! sel)
          = max 0 (cpu_capacity (physical_nodes s ! sel) - cpu_req v_node)
        \<and> (\<forall>i. i \<noteq> sel \<longrightarrow> physical_nodes (commit s v_node sel) ! i = physical_nodes s ! i))
   \<and> ((\<forall>q \<in> set (physical_nodes s). 0 \<le> cpu_capacity q) \<longrightarrow>
        (\<forall>vs s'. main_loop policy_net random s vs = Inr s' \<longrightarrow>
           (\<forall>q \<in> set (physical_nodes s'). 0 \<le> cpu_capacity q)))"
proof -
  have "cpu_capacity (deduct_capacity (p\<lparr>cpu_capacity := 10\<rparr>) 8) = 2"
    "cpu_capacity (deduct_capacity (p\<lparr>cpu_capacity := 10\<rparr>) 15) = 0"
    by (simp_all add: cpu_capacity_deduct)
  moreover have "cpu_capacity (physical_nodes (commit s v_node sel) ! sel)
          = max 0 (cpu_capacity (physical_nodes s ! sel) - cpu_req v_node)"
    if "sel < length (physical_nodes s)"
    using that by (simp add: physical_nodes_commit cpu_capacity_deduct)
  moreover have "physical_nodes (commit s v_node sel) ! i = physical_nodes s ! i" if "i \<noteq> sel" for i
    using that by (simp add: physical_nodes_commit)
  ultimately show ?thesis
    using cpu_capacity_deduct [of p amount] nonneg_loop [of s policy_net random] by blast
qed

theorem capacity_never_negative_witness:
  "cpu_capacity (deduct_capacity (example_nodes ! 0) 8) = 2
   \<and> cpu_capacity (deduct_capacity (example_nodes ! 0) 15) = 0
   \<and> main_loop uniform_policy (\<lambda>_. 0) example_session virtual_network_request
       = Inr (commit (commit example_session (virtual_network_request ! 0) 0)
               (virtual_network_request ! 1) 2)
   \<and> map cpu_capacity (physical_nodes (commit (commit example_session (virtual_network_request ! 0) 0)
               (virtual_network_request ! 1) 2)) = [3, 5, 4]"
proof -
  let ?s = "commit (commit example_session (virtual_network_request ! 0) 0)
               (virtual_network_request ! 1) 2"
  have 1: "\<forall>q \<in> set (physical_nodes example_session). 0 \<le> cpu_capacity q"
    by code_simp
  have 2: "main_loop uniform_policy (\<lambda>_. 0) example_session virtual_network_request = Inr ?s"
    by code_simp
  have 3: "map cpu_capacity (physical_nodes ?s) = [3, 5, 4]"
    by code_simp
  have 4: "cpu_capacity (example_nodes ! 0) = 10"
    by code_simp
  from capacity_never_negative [of "example_nodes ! 0" 8 0 example_session
      "virtual_network_request ! 0" uniform_policy "\<lambda>_. 0"] 1 2 3 4
  show ?thesis
    by (simp add: cpu_capacity_deduct)
qed

section \<open>Renormalisation and the score vector\<close>

text \<open>
  Claim C2, as amended. When the filter loop has collected a non-empty eligible subset and
  the sum of the eligible probabilities is not zero, \<open>map_virtual_node\<close> divides every
  eligible probability by that sum, the weights so obtained sum to 1, and the weighted draw
  on them selects a node of the eligible subset. (There is no uniform fallback in the code;
  the case of a zero sum is the counterexample below.)
\<close>

theorem renormalization_divides_by_sum:
  assumes "filter_eligible (enumerate 0 features) (policy_net (features_rows features))
             requirement [] [] = Inr (eligible_nodes, eligible_probs)"
    and "eligible_nodes \<noteq> []"
    and "sum_list eligible_probs \<noteq> 0"
  shows "map_virtual_node features policy_net requirement r =
           (case random_choices eligible_nodes
                   (map (\<lambda>prob. prob / sum_list eligible_probs) eligible_probs) r of
              Inl e \<Rightarrow> Inl e
            | Inr selected_node \<Rightarrow> Inr (policy_net (features_rows features), selected_node))
         \<and> sum_list (map (\<lambda>prob. prob / sum_list eligible_probs) eligible_probs) = 1
         \<and> (\<exists>selected_node \<in> set eligible_nodes.
               map_virtual_node features policy_net requirement r =
                 Inr (policy_net (features_rows features), selected_node))"
proof -
  let ?probs = "policy_net (features_rows features)"
  let ?en = "eligible_indices features requirement"
  from assms(1) have en: "eligible_nodes = ?en" and ep: "eligible_probs = map ((!) ?probs) ?en"
    and inr: "\<forall>i \<in> set ?en. i < length ?probs"
    unfolding filter_eligible_enumerate by (auto split: if_splits)
  from assms(2) en have ne: "features \<noteq> []"
    by (auto simp: eligible_indices_def)
  have norm: "normalized_probs eligible_probs =
              map (\<lambda>prob. prob / sum_list eligible_probs) eligible_probs"
    by (simp add: normalized_probs_def)
  have one: "map_virtual_node features policy_net requirement r =
           (case random_choices eligible_nodes (normalized_probs eligible_probs) r of
              Inl e \<Rightarrow> Inl e
            | Inr selected_node \<Rightarrow> Inr (?probs, selected_node))"
    using ne assms by (simp add: map_virtual_node_def)
  have two: "sum_list (normalized_probs eligible_probs) = 1"
    using sum_list_normalized_probs [OF assms(3)] .
  have "length eligible_nodes = length eligible_probs"
    by (simp add: en ep)
  from random_choices_normalized [OF this assms(2,3), of r] one
  obtain sel where sel: "map_virtual_node features policy_net requirement r = Inr (?probs, sel)"
    by simp
  from map_virtual_node_selected [OF sel] en have "sel \<in> set eligible_nodes"
    by simp
  with sel one two show ?thesis
    unfolding norm by blast
qed

theorem renormalization_divides_by_sum_witness:
  "map_virtual_node example_features uniform_policy 8 (9 / 10) = Inr ([1 / 3, 1 / 3, 1 / 3], 2)
   \<and> sum_list (map (\<lambda>prob. prob / sum_list [1 / 3, 1 / 3]) [1 / 3, 1 / 3 :: real]) = 1"
proof -
  have 1: "filter_eligible (enumerate 0 example_features)
             (uniform_policy (features_rows example_features)) 8 [] []
           = Inr ([0, 2], [1 / 3, 1 / 3])"
    by code_simp
  have 2: "[0, 2 :: nat] \<noteq> []"
    by simp
  have 3: "sum_list [1 / 3, 1 / 3 :: real] \<noteq> 0"
    by simp
  have 4: "uniform_policy (features_rows example_features) = [1 / 3, 1 / 3, 1 / 3]"
    by code_simp
  have 5: "map_virtual_node example_features uniform_policy 8 (9 / 10) = Inr ([1 / 3, 1 / 3, 1 / 3], 2)"
    by code_simp
  from renormalization_divides_by_sum
         [where features = example_features and policy_net = uniform_policy
            and r = "9 / 10", OF 1 2 3] 4 5
  show ?thesis
    by simp
qed

text \<open>
  Claim C2, as stated, fails. The requirement 8 leaves the nodes 0 and 2 of the example
  eligible; the scoring network puts all the probability on node 1, so both eligible scores
  are exactly 0. The division by their sum raises \<open>ZeroDivisionError\<close>; no uniform
  distribution is used.
\<close>

theorem zero_eligible_scores_divide_by_zero:
  "map_virtual_node example_features node_1_policy 8 0 = Inl ZeroDivisionError"
  by code_simp

text \<open>
  The outcome of \<open>map_virtual_node\<close>, the selected node or the error, is a function of
  the entries of the score vector at the eligible nodes.
\<close>

lemma map_virtual_node_eligible_entries:
  assumes "\<forall>i \<in> set (eligible_indices features requirement).
             i < length (policy1 (features_rows features))
             \<and> i < length (policy2 (features_rows features))
             \<and> policy1 (features_rows features) ! i = policy2 (features_rows features) ! i"
  shows "map_sum id snd (map_virtual_node features policy1 requirement r)
         = map_sum id snd (map_virtual_node features policy2 requirement r)"
proof -
  define en where "en = eligible_indices features requirement"
  define p1 where "p1 = policy1 (features_rows features)"
  define p2 where "p2 = policy2 (features_rows features)"
  from assms have same: "map ((!) p1) en = map ((!) p2) en"
    unfolding en_def p1_def p2_def by simp
  from assms have ok1: "\<not> (\<exists>i \<in> set en. length p1 \<le> i)"
    and ok2: "\<not> (\<exists>i \<in> set en. length p2 \<le> i)"
    unfolding en_def p1_def p2_def by (auto simp: not_le)
  define sel where
    "sel = en ! bisect (accumulate 0 (normalized_probs (map ((!) p2) en))) r 0 (length en - 1)"
  have e1: "map_virtual_node features policy1 requirement r =
     (if features = [] then Inl RuntimeError
      else if en = [] then Inl ValueError
      else if sum_list (map ((!) p2) en) = 0 then Inl ZeroDivisionError
      else Inr (p1, sel))"
    using ok1
    by (simp only: map_virtual_node_eq Let_def en_def [symmetric] p1_def [symmetric]
          same sel_def [symmetric] if_False)
  have e2: "map_virtual_node features policy2 requirement r =
     (if features = [] then Inl RuntimeError
      else if en = [] then Inl ValueError
      else if sum_list (map ((!) p2) en) = 0 then Inl ZeroDivisionError
      else Inr (p2, sel))"
    using ok2
    by (simp only: map_virtual_node_eq Let_def en_def [symmetric] p2_def [symmetric]
          sel_def [symmetric] if_False)
  show ?thesis
    unfolding e1 e2 by simp
qed

text \<open>
  Claim C8, as amended. \<open>map_virtual_node\<close> does not check the score vector and raises
  no error for a vector that violates the contract. It reads the vector at the eligible
  nodes only: two vectors that can be indexed at every eligible node and agree there lead
  to the same outcome, the same selected node or the same error, whatever their lengths,
  their other entries and their sums. When a node is selected, the vector is returned as
  the scoring network gave it and the node is one of the eligible subset.
\<close>

theorem score_vector_not_validated:
  "((\<forall>i \<in> set (eligible_indices features requirement).
        i < length (policy1 (features_rows features))
        \<and> i < length (policy2 (features_rows features))
        \<and> policy1 (features_rows features) ! i = policy2 (features_rows features) ! i)
     \<longrightarrow> map_sum id snd (map_virtual_node features policy1 requirement r)
         = map_sum id snd (map_virtual_node features policy2 requirement r))
   \<and> (map_virtual_node features policy1 requirement r = Inr (probabilities, selected_node)
     \<longrightarrow> probabilities = policy1 (features_rows features)
         \<and> selected_node \<in> set (eligible_indices features requirement))"
proof -
  have "probabilities = policy1 (features_rows features)
         \<and> selected_node \<in> set (eligible_indices features requirement)"
    if run: "map_virtual_node features policy1 requirement r = Inr (probabilities, selected_node)"
  proof -
    from run have "probabilities = policy1 (features_rows features)"
      by (simp add: map_virtual_node_def Let_def split: if_splits sum.splits prod.splits)
    with map_virtual_node_selected [OF run] show ?thesis by simp
  qed
  with map_virtual_node_eligible_entries [of features requirement policy1 policy2 r]
  show ?thesis by blast
qed

theorem score_vector_not_validated_witness:
  "map_virtual_node example_features invalid_policy 8 (9 / 10) = Inr ([3, - 1, 5, 7], 2)
   \<and> map_virtual_node example_features padded_policy 8 (9 / 10) = Inr ([3, 100, 5], 2)"
proof -
  have 1: "\<forall>i \<in> set (eligible_indices example_features 8).
             i < length (invalid_policy (features_rows example_features))
             \<and> i < length (padded_policy (features_rows example_features))
             \<and> invalid_policy (features_rows example_features) ! i
               = padded_policy (features_rows example_features) ! i"
    by code_simp
  have 2: "map_virtual_node example_features invalid_policy 8 (9 / 10) = Inr ([3, - 1, 5, 7], 2)"
    by code_simp
  have 3: "map_virtual_node example_features padded_policy 8 (9 / 10) = Inr ([3, 100, 5], 2)"
    by code_simp
  from score_vector_not_validated
         [of example_features 8 invalid_policy padded_policy "9 / 10" "[3, - 1, 5, 7]" 2] 1 2 3
  show ?thesis by simp
qed

text \<open>
  Claim C8, as stated, fails. The score vector \<open>[3, -1, 5, 7]\<close> for three physical nodes
  has the wrong length, a negative entry and the sum 14; \<open>map_virtual_node\<close> raises
  nothing and selects node 0.
\<close>

theorem invalid_score_vector_accepted:
  "map_virtual_node example_features invalid_policy 4 0 = Inr ([3, - 1, 5, 7], 0)"
  by code_simp

section \<open>A mapped node can be selected again\<close>

text \<open>
  The binary search finds the position \<open>p\<close> when the cumulative weights up to \<open>p\<close> are
  at most \<open>x\<close> and those from \<open>p\<close> on are above it; with non-negative weights of total 1
  and a positive weight at \<open>p\<close>, the sum of the weights before \<open>p\<close> is such an \<open>x\<close>.
\<close>

lemma accumulate_nth:
  "j < length ws \<Longrightarrow> accumulate acc ws ! j = acc + sum_list (take (Suc j) ws)"
proof (induction ws arbitrary: acc j)
  case Nil
  then show ?case by simp
next
  case (Cons w ws)
  show ?case
  proof (cases j)
    case 0
    then show ?thesis by simp
  next
    case (Suc k)
    with Cons.prems have "k < length ws" by simp
    from Cons.IH [OF this, of "acc + w"] Suc show ?thesis
      by (simp add: add.assoc)
  qed
qed

lemma sum_list_take_mono:
  fixes ws :: "real list"
  assumes "\<forall>w \<in> set ws. 0 \<le> w" "j \<le> k"
  shows "sum_list (take j ws) \<le> sum_list (take k ws)"
proof -
  have "take k ws = take j ws @ take (k - j) (drop j ws)"
    using assms(2) by (metis le_add_diff_inverse take_add)
  moreover have "0 \<le> sum_list (take (k - j) (drop j ws))"
    using assms(1) by (intro sum_list_nonneg) (meson in_set_dropD in_set_takeD)
  ultimately show ?thesis by simp
qed

lemma bisect_exact:
  assumes "lo \<le> p" "p \<le> hi" "\<forall>j < p. a ! j \<le> x" "\<forall>j. p \<le> j \<and> j < hi \<longrightarrow> x < a ! j"
  shows "bisect a x lo hi = p"
  using assms
proof (induction a x lo hi rule: bisect.induct)
  case (1 a x lo hi)
  show ?case
  proof (cases "lo < hi")
    case False
    with "1.prems" show ?thesis by (simp add: bisect.simps)
  next
    case True
    define mid where "mid = (lo + hi) div 2"
    from True have m: "lo \<le> mid" "mid < hi" by (simp_all add: mid_def)
    show ?thesis
    proof (cases "x < a ! mid")
      case lt: True
      have "p \<le> mid"
      proof (rule ccontr)
        assume "\<not> p \<le> mid"
        then have "mid < p" by simp
        with "1.prems"(3) have "a ! mid \<le> x" by simp
        with lt show False by simp
      qed
      moreover have "\<forall>j. p \<le> j \<and> j < mid \<longrightarrow> x < a ! j"
        using "1.prems"(4) m by auto
      ultimately have "bisect a x lo mid = p"
        using "1.IH"(1) [OF True mid_def lt] "1.prems"(1,3) by blast
      moreover have "bisect a x lo hi = bisect a x lo mid"
        using True lt by (subst bisect.simps) (simp add: mid_def Let_def)
      ultimately show ?thesis by simp
    next
      case ge: False
      have "mid + 1 \<le> p"
      proof (rule ccontr)
        assume "\<not> mid + 1 \<le> p"
        then have "p \<le> mid" by simp
        with "1.prems"(4) m have "x < a ! mid" by simp
        with ge show False by simp
      qed
      then have "bisect a x (mid + 1) hi = p"
        using "1.IH"(2) [OF True mid_def ge] "1.prems"(2,3,4) by blast
      moreover have "bisect a x lo hi = bisect a x (mid + 1) hi"
        using True ge by (subst bisect.simps) (simp add: mid_def Let_def)
      ultimately show ?thesis by simp
    qed
  qed
qed

lemma sum_list_pos_member:
  fixes ws :: "real list"
  assumes "\<forall>w \<in> set ws. 0 \<le> w" "p < length ws" "0 < ws ! p"
  shows "0 < sum_list ws"
proof -
  have "sum_list (take (Suc p) ws) = sum_list (take p ws) + ws ! p"
    using assms(2) by (simp add: take_Suc_conv_app_nth)
  moreover have "0 \<le> sum_list (take p ws)"
    using assms(1) by (intro sum_list_nonneg) (meson in_set_takeD)
  moreover have "sum_list (take (Suc p) ws) \<le> sum_list (take (length ws) ws)"
    using assms(1,2) by (intro sum_list_take_mono) simp_all
  ultimately show ?thesis using assms(3) by simp
qed

lemma weighted_draw_reaches:
  fixes ws :: "real list"
  assumes nonneg: "\<forall>w \<in> set ws. 0 \<le> w" and p: "p < length ws" and pos: "0 < ws ! p"
    and total: "sum_list ws = 1"
  shows "0 \<le> sum_list (take p ws) \<and> sum_list (take p ws) < 1
         \<and> bisect (accumulate 0 ws) (sum_list (take p ws)) 0 (length ws - 1) = p"
proof -
  define x where "x = sum_list (take p ws)"
  have x0: "0 \<le> x"
    unfolding x_def using nonneg by (intro sum_list_nonneg) (meson in_set_takeD)
  have step: "sum_list (take (Suc p) ws) = x + ws ! p"
    using p by (simp add: take_Suc_conv_app_nth x_def)
  have "sum_list (take (Suc p) ws) \<le> sum_list (take (length ws) ws)"
    using nonneg p by (intro sum_list_take_mono) simp_all
  with step pos total have x1: "x < 1" by simp
  have below: "\<forall>j < p. accumulate 0 ws ! j \<le> x"
  proof (intro allI impI)
    fix j assume "j < p"
    with p have "j < length ws" by simp
    from accumulate_nth [OF this, of 0]
    have "accumulate 0 ws ! j = sum_list (take (Suc j) ws)" by simp
    moreover have "sum_list (take (Suc j) ws) \<le> sum_list (take p ws)"
      using nonneg \<open>j < p\<close> by (intro sum_list_take_mono) simp_all
    ultimately show "accumulate 0 ws ! j \<le> x" by (simp add: x_def)
  qed
  have above: "\<forall>j. p \<le> j \<and> j < length ws - 1 \<longrightarrow> x < accumulate 0 ws ! j"
  proof (intro allI impI)
    fix j assume j: "p \<le> j \<and> j < length ws - 1"
    then have "j < length ws" by arith
    from accumulate_nth [OF this, of 0]
    have "accumulate 0 ws ! j = sum_list (take (Suc j) ws)" by simp
    moreover have "sum_list (take (Suc p) ws) \<le> sum_list (take (Suc j) ws)"
      using nonneg j by (intro sum_list_take_mono) simp_all
    ultimately show "x < accumulate 0 ws ! j" using step pos by simp
  qed
  from p have "p \<le> length ws - 1" by simp
  from bisect_exact [OF _ this below above] x0 x1 show ?thesis
    by (simp add: x_def)
qed

lemma normalized_probs_nonneg:
  assumes "\<forall>w \<in> set ps. 0 \<le> w" "0 < sum_list ps"
  shows "\<forall>w \<in> set (normalized_probs ps). 0 \<le> w"
  using assms by (auto simp: normalized_probs_def)

lemma eligible_can_be_drawn:
  assumes elig: "i \<in> set (eligible_indices features requirement)"
    and len: "\<forall>idx \<in> set (eligible_indices features requirement).
                 idx < length (policy_net (features_rows features))"
    and nonneg: "\<forall>idx \<in> set (eligible_indices features requirement).
                 0 \<le> policy_net (features_rows features) ! idx"
    and pos: "0 < policy_net (features_rows features) ! i"
  shows "\<exists>r. 0 \<le> r \<and> r < 1 \<and>
           map_virtual_node features policy_net requirement r
             = Inr (policy_net (features_rows features), i)"
proof -
  define probs where "probs = policy_net (features_rows features)"
  define en where "en = eligible_indices features requirement"
  define ep where "ep = map ((!) probs) en"
  define ws where "ws = normalized_probs ep"
  from elig obtain p where p: "p < length en" "en ! p = i"
    unfolding en_def by (auto simp: in_set_conv_nth)
  have ep_nonneg: "\<forall>w \<in> set ep. 0 \<le> w"
    using nonneg by (simp add: ep_def en_def probs_def)
  have ep_p: "ep ! p = probs ! i"
    using p by (simp add: ep_def)
  have total_pos: "0 < sum_list ep"
    using sum_list_pos_member [OF ep_nonneg, of p] p pos ep_p
    by (simp add: ep_def probs_def)
  have ws_nonneg: "\<forall>w \<in> set ws. 0 \<le> w"
    unfolding ws_def using normalized_probs_nonneg [OF ep_nonneg total_pos] .
  have ws_len: "length ws = length en"
    by (simp add: ws_def ep_def length_normalized_probs)
  have ws_p: "0 < ws ! p"
    using p pos total_pos ep_p
    by (simp add: ws_def normalized_probs_def ep_def probs_def)
  have ws_total: "sum_list ws = 1"
    unfolding ws_def using total_pos by (intro sum_list_normalized_probs) simp
  define r where "r = sum_list (take p ws)"
  from weighted_draw_reaches [OF ws_nonneg _ ws_p ws_total] p ws_len
  have r: "0 \<le> r" "r < 1" "bisect (accumulate 0 ws) r 0 (length en - 1) = p"
    by (simp_all add: r_def)
  from elig have "i < length features"
    by (simp add: eligible_indices_iff)
  then have ne1: "features \<noteq> []" by auto
  from elig have ne2: "en \<noteq> []"
    unfolding en_def by auto
  note ne = ne1 ne2
  have no_short: "\<not> (\<exists>idx \<in> set en. length probs \<le> idx)"
    using len by (auto simp: en_def probs_def not_le)
  have "map_virtual_node features policy_net requirement r =
     (if features = [] then Inl RuntimeError
      else if \<exists>idx \<in> set en. length probs \<le> idx then Inl IndexError
      else if en = [] then Inl ValueError
      else if sum_list ep = 0 then Inl ZeroDivisionError
      else Inr (probs, en ! bisect (accumulate 0 ws) r 0 (length en - 1)))"
    by (simp only: map_virtual_node_eq Let_def en_def probs_def ep_def ws_def)
  with ne no_short total_pos r(3) p(2)
  have "map_virtual_node features policy_net requirement r = Inr (probs, i)"
    by simp
  with r(1,2) show ?thesis
    unfolding probs_def by blast
qed

text \<open>
  Claim C9. Eligibility is decided by the capacity alone. Let node \<open>i\<close> be in
  \<open>mapped_nodes\<close> already and let its remaining capacity meet the \<open>cpu_req\<close> of the
  next virtual node. Then the eligible list that the filter loop builds is the list of the
  nodes with enough capacity, and \<open>i\<close> is in it; and when the scoring network returns one
  non-negative probability per node and a positive one for \<open>i\<close>, some value of
  \<open>random()\<close> in \<open>[0, 1)\<close> makes the step commit node \<open>i\<close> again, which then occurs
  once more in \<open>mapped_nodes\<close>.
\<close>

theorem mapped_node_selectable_again:
  assumes "features_in_sync s"
    and "i \<in> set (mapped_nodes s)"
    and "i < length (physical_nodes s)"
    and "cpu_req v_node \<le> cpu_capacity (physical_nodes s ! i)"
    and "length (policy_net (features_rows (node_features s))) = length (node_features s)"
    and "\<forall>p \<in> set (policy_net (features_rows (node_features s))). 0 \<le> p"
    and "0 < policy_net (features_rows (node_features s)) ! i"
  shows "(\<exists>en ep.
            filter_eligible (enumerate 0 (node_features s))
              (policy_net (features_rows (node_features s))) (cpu_req v_node) [] [] = Inr (en, ep)
            \<and> en = filter (\<lambda>j. cpu_req v_node \<le> cpu_capacity (physical_nodes s ! j))
                      [0 ..< length (physical_nodes s)]
            \<and> i \<in> set en)
       \<and> (\<exists>r. 0 \<le> r \<and> r < 1
              \<and> main_step policy_net (\<lambda>_. r) s v_node = Inr (commit s v_node i))
       \<and> mapped_nodes (commit s v_node i) = mapped_nodes s @ [i]"
proof -
  let ?probs = "policy_net (features_rows (node_features s))"
  let ?en = "eligible_indices (node_features s) (cpu_req v_node)"
  from assms(1) have flen: "length (node_features s) = length (physical_nodes s)"
    unfolding features_in_sync_def by (metis length_map)
  note el = features_in_sync_eligible [OF assms(1), of "cpu_req v_node"]
  have elig: "i \<in> set ?en"
    unfolding el using assms(3,4) by simp
  have short: "\<forall>idx \<in> set ?en. idx < length ?probs"
    by (simp add: eligible_indices_iff assms(5))
  have nonneg: "\<forall>idx \<in> set ?en. 0 \<le> ?probs ! idx"
    using assms(6) short by simp
  have first: "filter_eligible (enumerate 0 (node_features s)) ?probs (cpu_req v_node) [] []
               = Inr (?en, map ((!) ?probs) ?en)"
    using short by (simp add: filter_eligible_enumerate)
  from eligible_can_be_drawn
         [where policy_net = policy_net and features = "node_features s",
          OF elig short nonneg assms(7)]
  obtain r where r: "0 \<le> r" "r < 1"
    "map_virtual_node (node_features s) policy_net (cpu_req v_node) r = Inr (?probs, i)"
    by blast
  have "main_step policy_net (\<lambda>_. r) s v_node = Inr (commit s v_node i)"
    using r(3) assms(3) flen by (simp add: main_step_def)
  with r(1,2) first el elig show ?thesis
    by (auto simp: mapped_nodes_commit)
qed

theorem mapped_node_selectable_again_witness:
  "main_step uniform_policy (\<lambda>_. 9 / 10) example_session (virtual_network_request ! 0)
     = Inr (commit example_session (virtual_network_request ! 0) 2)
   \<and> main_step uniform_policy (\<lambda>_. 9 / 10)
       (commit example_session (virtual_network_request ! 0) 2) (virtual_network_request ! 3)
     = Inr (commit (commit example_session (virtual_network_request ! 0) 2)
              (virtual_network_request ! 3) 2)
   \<and> mapped_nodes (commit (commit example_session (virtual_network_request ! 0) 2)
              (virtual_network_request ! 3) 2) = [2, 2]"
proof -
  let ?s = "commit example_session (virtual_network_request ! 0) 2"
  let ?v = "virtual_network_request ! 3"
  have 1: "features_in_sync ?s"
    by code_simp
  have 2: "2 \<in> set (mapped_nodes ?s)"
    by code_simp
  have 3: "2 < length (physical_nodes ?s)"
    by code_simp
  have 4: "cpu_req ?v \<le> cpu_capacity (physical_nodes ?s ! 2)"
    by code_simp
  have 5: "length (uniform_policy (features_rows (node_features ?s))) = length (node_features ?s)"
    by code_simp
  have 6: "\<forall>p \<in> set (uniform_policy (features_rows (node_features ?s))). 0 \<le> p"
    by code_simp
  have 7: "0 < uniform_policy (features_rows (node_features ?s)) ! 2"
    by code_simp
  have a: "main_step uniform_policy (\<lambda>_. 9 / 10) example_session (virtual_network_request ! 0)
           = Inr ?s"
    by code_simp
  have b: "main_step uniform_policy (\<lambda>_. 9 / 10) ?s ?v = Inr (commit ?s ?v 2)"
    by code_simp
  have c: "mapped_nodes ?s = [2]"
    by code_simp
  from mapped_node_selectable_again
         [where policy_net = uniform_policy and s = ?s and v_node = ?v and i = 2,
          OF 1 2 3 4 5 6 7] a b c
  show ?thesis
    by simp
qed

section \<open>The breadth-first search\<close>

lemma bfs_inv_initial:
  assumes "k < num_nodes"
  shows "bfs_inv adjacency k ((replicate num_nodes False)[k := True], replicate num_nodes 0, [k])"
proof -
  have "(replicate num_nodes False)[k := True] ! m \<longleftrightarrow> m = k" if "m < num_nodes" for m
    using that assms by (simp add: nth_list_update)
  then show ?thesis
    using assms by (simp add: bfs_inv_def)
qed

lemma visit_inv_pop:
  assumes "bfs_inv adjacency k (vis, dst, u # rest)"
  shows "visit_inv adjacency k u [] (vis, dst, rest)"
proof -
  from assms have
    a: "length dst = length vis" "k < length vis" "vis ! k" "dst ! k = 0"
    and b: "\<forall>m \<in> set (u # rest). m < length vis \<and> vis ! m"
    and c: "\<forall>m < length vis. \<not> vis ! m \<longrightarrow> dst ! m = 0"
    and d: "\<forall>m < length vis. vis ! m \<longrightarrow> (k, m) \<in> edges adjacency ^^ (dst ! m)"
    and e: "\<forall>w < length vis. vis ! w \<and> w \<notin> set (u # rest) \<longrightarrow> finished adjacency vis dst w"
    and f: "sorted (map ((!) dst) (u # rest))"
    and g: "\<forall>m < length vis. vis ! m \<longrightarrow> (\<forall>h \<in> set (u # rest). dst ! m \<le> dst ! h + 1)"
    unfolding bfs_inv_def by simp_all
  from b have u: "u < length vis" "vis ! u" and b': "\<forall>m \<in> set rest. m < length vis \<and> vis ! m"
    by simp_all
  from e have e': "\<forall>w < length vis. vis ! w \<and> w \<notin> set rest \<and> w \<noteq> u \<longrightarrow> finished adjacency vis dst w"
    by simp
  from f have f': "sorted (map ((!) dst) rest)" and lo: "\<forall>h \<in> set rest. dst ! u \<le> dst ! h"
    by simp_all
  from g have g': "\<forall>m < length vis. vis ! m \<longrightarrow> dst ! m \<le> dst ! u + 1"
    by simp
  from g' b' have hi: "\<forall>h \<in> set rest. dst ! h \<le> dst ! u + 1"
    by blast
  from lo hi have lohi: "\<forall>h \<in> set rest. dst ! u \<le> dst ! h \<and> dst ! h \<le> dst ! u + 1"
    by blast
  show ?thesis
    unfolding visit_inv_def using a u b' c d e' f' lohi g' by simp
qed

lemma visit_inv_old:
  assumes "visit_inv adjacency k u seen (vis, dst, q)" "n < length vis" "vis ! n"
  shows "visit_inv adjacency k u (seen @ [n]) (vis, dst, q)"
  using assms unfolding visit_inv_def by simp

lemma visit_inv_new:
  assumes inv: "visit_inv adjacency k u seen (vis, dst, q)"
    and n: "n < length vis" "\<not> vis ! n" "n \<in> set (adjacency u)"
  shows "visit_inv adjacency k u (seen @ [n])
           (vis[n := True], dst[n := dst ! u + 1], q @ [n])"
proof -
  from inv have
    a: "length dst = length vis" "k < length vis" "vis ! k" "dst ! k = 0"
       "u < length vis" "vis ! u"
    and b: "\<forall>m \<in> set q. m < length vis \<and> vis ! m"
    and c: "\<forall>m < length vis. \<not> vis ! m \<longrightarrow> dst ! m = 0"
    and d: "\<forall>m < length vis. vis ! m \<longrightarrow> (k, m) \<in> edges adjacency ^^ (dst ! m)"
    and e: "\<forall>w < length vis. vis ! w \<and> w \<notin> set q \<and> w \<noteq> u \<longrightarrow> finished adjacency vis dst w"
    and f: "\<forall>m \<in> set seen. m < length vis \<and> vis ! m \<and> dst ! m \<le> dst ! u + 1"
    and g: "sorted (map ((!) dst) q)"
    and h: "\<forall>h \<in> set q. dst ! u \<le> dst ! h \<and> dst ! h \<le> dst ! u + 1"
    and i: "\<forall>m < length vis. vis ! m \<longrightarrow> dst ! m \<le> dst ! u + 1"
    unfolding visit_inv_def by simp_all
  define vis' where "vis' = vis[n := True]"
  define dst' where "dst' = dst[n := dst ! u + 1]"
  have len: "length vis' = length vis" "length dst' = length vis"
    by (simp_all add: vis'_def dst'_def a(1))
  have visn: "vis' ! n" and dstn: "dst' ! n = dst ! u + 1"
    using n(1) a(1) by (simp_all add: vis'_def dst'_def)
  have vis_other: "vis' ! m = vis ! m" if "m \<noteq> n" for m
    using that by (simp add: vis'_def)
  have dst_other: "dst' ! m = dst ! m" if "m \<noteq> n" for m
    using that by (simp add: dst'_def)
  have vis_mono: "vis' ! m" if "vis ! m" for m
    using that visn vis_other by (cases "m = n") simp_all
  have dst_vis: "dst' ! m = dst ! m" if "vis ! m" for m
    using that n(2) dst_other by (cases "m = n") simp_all
  have un: "u \<noteq> n" and kn: "k \<noteq> n"
    using a(3,6) n(2) by auto
  have qn: "n \<notin> set q"
    using b n(2) by auto
  have A: "length dst' = length vis'" "k < length vis'" "vis' ! k" "dst' ! k = 0"
    "u < length vis'" "vis' ! u"
    using a len vis_mono dst_vis by simp_all
  have B: "\<forall>m \<in> set (q @ [n]). m < length vis' \<and> vis' ! m"
    using b n(1) visn vis_mono len by auto
  have C: "\<forall>m < length vis'. \<not> vis' ! m \<longrightarrow> dst' ! m = 0"
  proof (intro allI impI)
    fix m assume m: "m < length vis'" "\<not> vis' ! m"
    with visn have "m \<noteq> n" by auto
    with m vis_other dst_other c len show "dst' ! m = 0" by simp
  qed
  have D: "\<forall>m < length vis'. vis' ! m \<longrightarrow> (k, m) \<in> edges adjacency ^^ (dst' ! m)"
  proof (intro allI impI)
    fix m assume m: "m < length vis'" "vis' ! m"
    show "(k, m) \<in> edges adjacency ^^ (dst' ! m)"
    proof (cases "m = n")
      case True
      from d a(5,6) have "(k, u) \<in> edges adjacency ^^ (dst ! u)" by simp
      moreover from n(3) have "(u, n) \<in> edges adjacency" by (simp add: edges_def)
      ultimately have "(k, n) \<in> edges adjacency ^^ Suc (dst ! u)"
        by (rule relpow_Suc_I)
      with True dstn show ?thesis by simp
    next
      case False
      with m vis_other dst_other d len show ?thesis by simp
    qed
  qed
  have E: "\<forall>w < length vis'. vis' ! w \<and> w \<notin> set (q @ [n]) \<and> w \<noteq> u
             \<longrightarrow> finished adjacency vis' dst' w"
  proof (intro allI impI)
    fix w assume w: "w < length vis'" "vis' ! w \<and> w \<notin> set (q @ [n]) \<and> w \<noteq> u"
    then have wn: "w \<noteq> n" by auto
    with w vis_other len have "w < length vis" "vis ! w" "w \<notin> set q" "w \<noteq> u" by auto
    with e have fin: "finished adjacency vis dst w" by simp
    show "finished adjacency vis' dst' w"
      unfolding finished_def
    proof
      fix m assume "m \<in> set (adjacency w)"
      with fin have "m < length vis" "vis ! m" "dst ! m \<le> dst ! w + 1"
        unfolding finished_def by auto
      then show "m < length vis' \<and> vis' ! m \<and> dst' ! m \<le> dst' ! w + 1"
        using len vis_mono dst_vis dst_other [OF wn] by simp
    qed
  qed
  have F: "\<forall>m \<in> set (seen @ [n]). m < length vis' \<and> vis' ! m \<and> dst' ! m \<le> dst' ! u + 1"
  proof
    fix m assume "m \<in> set (seen @ [n])"
    then consider "m \<in> set seen" | "m = n" by auto
    then show "m < length vis' \<and> vis' ! m \<and> dst' ! m \<le> dst' ! u + 1"
    proof cases
      case 1
      with f have "m < length vis" "vis ! m" "dst ! m \<le> dst ! u + 1" by auto
      then show ?thesis
        using len vis_mono dst_vis dst_other [OF un] by simp
    next
      case 2
      then show ?thesis
        using n(1) len visn dstn dst_other [OF un] by simp
    qed
  qed
  have "dst' ! x = dst ! x" if "x \<in> set q" for x
    using that qn dst_other [of x] by blast
  then have mapq: "map ((!) dst') q = map ((!) dst) q"
    by simp
  have G: "sorted (map ((!) dst') (q @ [n]))"
    using g h dstn by (auto simp: mapq sorted_append)
  have H: "\<forall>h \<in> set (q @ [n]). dst' ! u \<le> dst' ! h \<and> dst' ! h \<le> dst' ! u + 1"
  proof
    fix x assume "x \<in> set (q @ [n])"
    then consider "x \<in> set q" | "x = n" by auto
    then show "dst' ! u \<le> dst' ! x \<and> dst' ! x \<le> dst' ! u + 1"
    proof cases
      case 1
      with qn have "x \<noteq> n" by auto
      with 1 h dst_other un show ?thesis by simp
    next
      case 2
      with dstn dst_other [OF un] show ?thesis by simp
    qed
  qed
  have I: "\<forall>m < length vis'. vis' ! m \<longrightarrow> dst' ! m \<le> dst' ! u + 1"
  proof (intro allI impI)
    fix m assume m: "m < length vis'" "vis' ! m"
    show "dst' ! m \<le> dst' ! u + 1"
    proof (cases "m = n")
      case True
      with dstn dst_other [OF un] show ?thesis by simp
    next
      case False
      with m vis_other dst_other i len un show ?thesis by simp
    qed
  qed
  have "visit_inv adjacency k u (seen @ [n]) (vis', dst', q @ [n])"
    unfolding visit_inv_def prod.case
    using A B C D E F G H I by (intro conjI)
  then show ?thesis
    by (simp only: vis'_def dst'_def)
qed

lemma visit_inv_push:
  assumes "visit_inv adjacency k u (adjacency u) (vis, dst, q)"
  shows "bfs_inv adjacency k (vis, dst, q)"
proof -
  from assms have
    a: "length dst = length vis" "k < length vis" "vis ! k" "dst ! k = 0"
       "u < length vis" "vis ! u"
    and b: "\<forall>m \<in> set q. m < length vis \<and> vis ! m"
    and c: "\<forall>m < length vis. \<not> vis ! m \<longrightarrow> dst ! m = 0"
    and d: "\<forall>m < length vis. vis ! m \<longrightarrow> (k, m) \<in> edges adjacency ^^ (dst ! m)"
    and e: "\<forall>w < length vis. vis ! w \<and> w \<notin> set q \<and> w \<noteq> u \<longrightarrow> finished adjacency vis dst w"
    and f: "\<forall>m \<in> set (adjacency u). m < length vis \<and> vis ! m \<and> dst ! m \<le> dst ! u + 1"
    and g: "sorted (map ((!) dst) q)"
    and h: "\<forall>h \<in> set q. dst ! u \<le> dst ! h \<and> dst ! h \<le> dst ! u + 1"
    and i: "\<forall>m < length vis. vis ! m \<longrightarrow> dst ! m \<le> dst ! u + 1"
    unfolding visit_inv_def by simp_all
  from f have fu: "finished adjacency vis dst u"
    by (simp add: finished_def)
  have E: "\<forall>w < length vis. vis ! w \<and> w \<notin> set q \<longrightarrow> finished adjacency vis dst w"
    using e fu by blast
  have I: "\<forall>m < length vis. vis ! m \<longrightarrow> (\<forall>x \<in> set q. dst ! m \<le> dst ! x + 1)"
  proof (intro allI impI ballI)
    fix m x assume "m < length vis" "vis ! m" "x \<in> set q"
    with i h have "dst ! m \<le> dst ! u + 1" "dst ! u \<le> dst ! x" by auto
    then show "dst ! m \<le> dst ! x + 1" by simp
  qed
  show ?thesis
    unfolding bfs_inv_def prod.case
    using a(1-4) b c d E g I by (intro conjI)
qed

lemma visit_neighbors_inv:
  assumes "visit_neighbors ns u st = Inr st'" "visit_inv adjacency k u seen st"
    "set ns \<subseteq> set (adjacency u)"
  shows "visit_inv adjacency k u (seen @ ns) st' \<and> length (fst st') = length (fst st)"
  using assms
proof (induction ns arbitrary: seen st)
  case Nil
  then show ?case by simp
next
  case (Cons n ns)
  obtain vis dst q where st: "st = (vis, dst, q)" by (cases st) auto
  from Cons.prems(1) st have n: "n < length vis"
    by (simp split: if_splits)
  from Cons.prems(3) have sub: "set ns \<subseteq> set (adjacency u)" and nu: "n \<in> set (adjacency u)"
    by simp_all
  show ?case
  proof (cases "vis ! n")
    case True
    with Cons.prems(1) st n have run: "visit_neighbors ns u (vis, dst, q) = Inr st'"
      by simp
    from visit_inv_old [OF Cons.prems(2) [unfolded st] n True]
    have "visit_inv adjacency k u (seen @ [n]) (vis, dst, q)" .
    from Cons.IH [OF run this sub] st show ?thesis by simp
  next
    case False
    with Cons.prems(1) st n have run:
      "visit_neighbors ns u (vis[n := True], dst[n := dst ! u + 1], q @ [n]) = Inr st'"
      by simp
    from visit_inv_new [OF Cons.prems(2) [unfolded st] n False nu]
    have "visit_inv adjacency k u (seen @ [n])
            (vis[n := True], dst[n := dst ! u + 1], q @ [n])" .
    from Cons.IH [OF run this sub] st show ?thesis by simp
  qed
qed

lemma visit_neighbors_total:
  "\<forall>n \<in> set ns. n < length vis \<Longrightarrow> \<exists>st'. visit_neighbors ns u (vis, dst, q) = Inr st'"
proof (induction ns arbitrary: vis dst q)
  case Nil
  then show ?case by simp
next
  case (Cons n ns)
  from Cons.prems have n: "n < length vis" and rest: "\<forall>m \<in> set ns. m < length vis"
    by simp_all
  show ?case
  proof (cases "vis ! n")
    case True
    with Cons.IH [OF rest, of dst q] n show ?thesis by simp
  next
    case False
    from rest have "\<forall>m \<in> set ns. m < length (vis[n := True])" by simp
    from Cons.IH [OF this, of "dst[n := dst ! u + 1]" "q @ [n]"] n False show ?thesis
      by simp
  qed
qed

lemma bfs_loop_inv:
  "bfs_inv adjacency k st \<Longrightarrow> bfs_loop adjacency st = Inr d \<Longrightarrow>
   \<exists>vis. bfs_inv adjacency k (vis, d, []) \<and> length vis = length (fst st)"
proof (induction adjacency st rule: bfs_loop.induct)
  case (1 adjacency visited distance queue)
  show ?case
  proof (cases queue)
    case Nil
    with "1.prems" show ?thesis
      by (auto simp: bfs_loop.simps)
  next
    case (Cons u rest)
    from "1.prems"(2) Cons obtain st' where
      v: "visit_neighbors (adjacency u) u (visited, distance, rest) = Inr st'"
      and l: "bfs_loop adjacency st' = Inr d"
      by (auto simp: bfs_loop.simps split: sum.splits)
    from visit_inv_pop [OF "1.prems"(1) [unfolded Cons]]
    have "visit_inv adjacency k u [] (visited, distance, rest)" .
    from visit_neighbors_inv [OF v this]
    have "visit_inv adjacency k u (adjacency u) st'"
      and len: "length (fst st') = length visited"
      by simp_all
    then have "bfs_inv adjacency k st'"
      using visit_inv_push [of adjacency k u "fst st'" "fst (snd st')" "snd (snd st')"]
      by simp
    from "1.IH" [OF Cons v this l] len show ?thesis by simp
  qed
qed

lemma bfs_loop_total:
  "bfs_inv adjacency k st \<Longrightarrow> well_formed adjacency (length (fst st)) \<Longrightarrow>
   \<exists>d. bfs_loop adjacency st = Inr d"
proof (induction adjacency st rule: bfs_loop.induct)
  case (1 adjacency visited distance queue)
  show ?case
  proof (cases queue)
    case Nil
    then show ?thesis by (simp add: bfs_loop.simps)
  next
    case (Cons u rest)
    from "1.prems"(1) Cons have u: "u < length visited"
      by (simp add: bfs_inv_def)
    with "1.prems"(2) have "\<forall>n \<in> set (adjacency u). n < length visited"
      by (simp add: well_formed_def)
    from visit_neighbors_total [OF this, of u distance rest] obtain st' where
      v: "visit_neighbors (adjacency u) u (visited, distance, rest) = Inr st'"
      by blast
    from visit_inv_pop [OF "1.prems"(1) [unfolded Cons]]
    have "visit_inv adjacency k u [] (visited, distance, rest)" .
    from visit_neighbors_inv [OF v this]
    have "visit_inv adjacency k u (adjacency u) st'"
      and len: "length (fst st') = length visited"
      by simp_all
    then have inv': "bfs_inv adjacency k st'"
      using visit_inv_push [of adjacency k u "fst st'" "fst (snd st')" "snd (snd st')"]
      by simp
    from "1.prems"(2) len have "well_formed adjacency (length (fst st'))" by simp
    from "1.IH" [OF Cons v inv' this] obtain d where "bfs_loop adjacency st' = Inr d"
      by blast
    with Cons v show ?thesis
      by (simp add: bfs_loop.simps)
  qed
qed

text \<open>
  When the queue is empty every visited node is finished, so that a path of \<open>n\<close> hops
  from \<open>k\<close> ends in a visited node whose distance is at most \<open>n\<close>.
\<close>

lemma bfs_final_paths:
  assumes "bfs_inv adjacency k (vis, d, [])"
  shows "(k, m) \<in> edges adjacency ^^ n \<Longrightarrow> m < length vis \<and> vis ! m \<and> d ! m \<le> n"
proof (induction n arbitrary: m)
  case 0
  with assms show ?case by (simp add: bfs_inv_def)
next
  case (Suc n)
  then obtain u where u: "(k, u) \<in> edges adjacency ^^ n" "(u, m) \<in> edges adjacency"
    by auto
  from Suc.IH [OF u(1)] have "u < length vis" "vis ! u" "d ! u \<le> n" by simp_all
  with assms have "finished adjacency vis d u"
    by (simp add: bfs_inv_def)
  with u(2) have "m < length vis \<and> vis ! m \<and> d ! m \<le> d ! u + 1"
    by (simp add: finished_def edges_def)
  with \<open>d ! u \<le> n\<close> show ?case by simp
qed

lemma shortest_distances_correct:
  assumes "k < num_nodes" "shortest_distances adjacency num_nodes k = Inr d"
  shows "length d = num_nodes"
    and "d ! k = 0"
    and "(k, m) \<in> (edges adjacency)\<^sup>* \<Longrightarrow> m < num_nodes \<and> is_hop_distance adjacency k m (d ! m)"
    and "m < num_nodes \<Longrightarrow> (k, m) \<notin> (edges adjacency)\<^sup>* \<Longrightarrow> d ! m = 0"
proof -
  from bfs_loop_inv [OF bfs_inv_initial [OF assms(1)] assms(2) [unfolded shortest_distances_def]]
  obtain vis where inv: "bfs_inv adjacency k (vis, d, [])" and len: "length vis = num_nodes"
    by auto
  from inv len show "length d = num_nodes" "d ! k = 0"
    by (simp_all add: bfs_inv_def)
  show "m < num_nodes \<and> is_hop_distance adjacency k m (d ! m)" if "(k, m) \<in> (edges adjacency)\<^sup>*"
  proof -
    from that obtain n where n: "(k, m) \<in> edges adjacency ^^ n"
      by (auto simp: rtrancl_power)
    from bfs_final_paths [OF inv n] have m: "m < length vis" "vis ! m" by simp_all
    with inv have "(k, m) \<in> edges adjacency ^^ (d ! m)"
      by (simp add: bfs_inv_def)
    moreover have "d ! m \<le> n'" if "(k, m) \<in> edges adjacency ^^ n'" for n'
      using bfs_final_paths [OF inv that] by simp
    ultimately show ?thesis
      using m len by (simp add: is_hop_distance_def)
  qed
  show "d ! m = 0" if "m < num_nodes" "(k, m) \<notin> (edges adjacency)\<^sup>*"
  proof -
    have "\<not> vis ! m"
    proof
      assume "vis ! m"
      with inv that(1) len have "(k, m) \<in> edges adjacency ^^ (d ! m)"
        by (simp add: bfs_inv_def)
      then have "(k, m) \<in> (edges adjacency)\<^sup>*"
        by (auto simp: rtrancl_power)
      with that(2) show False by simp
    qed
    with inv that(1) len show ?thesis
      by (simp add: bfs_inv_def)
  qed
qed

lemma shortest_distances_total:
  assumes "k < num_nodes" "well_formed adjacency num_nodes"
  shows "\<exists>d. shortest_distances adjacency num_nodes k = Inr d"
  unfolding shortest_distances_def
  using bfs_loop_total [OF bfs_inv_initial [OF assms(1)], of adjacency] assms(2)
  by simp

lemma mapped_distances_eq:
  "mapped_distances d mapped k =
     (if \<forall>m \<in> set mapped. m \<noteq> k \<longrightarrow> m < length d
      then Inr (map ((!) d) (filter (\<lambda>m. m \<noteq> k) mapped))
      else Inl IndexError)"
  by (induction mapped) auto

lemma distance_corr_loop_nth:
  "distance_corr_loop adjacency n mapped ks = Inr dc \<Longrightarrow> i < length ks \<Longrightarrow>
   \<exists>d. shortest_distances adjacency n (ks ! i) = Inr d
       \<and> (\<forall>m \<in> set mapped. m \<noteq> ks ! i \<longrightarrow> m < length d)
       \<and> dc ! i = avg_distance (map ((!) d) (filter (\<lambda>m. m \<noteq> ks ! i) mapped))"
proof (induction ks arbitrary: dc i)
  case Nil
  then show ?case by simp
next
  case (Cons k ks)
  from Cons.prems(1) obtain d ds rest where
    d: "shortest_distances adjacency n k = Inr d"
    and ds: "mapped_distances d mapped k = Inr ds"
    and rest: "distance_corr_loop adjacency n mapped ks = Inr rest"
    and dc: "dc = avg_distance ds # rest"
    by (auto split: sum.splits)
  from ds have ok: "\<forall>m \<in> set mapped. m \<noteq> k \<longrightarrow> m < length d"
    and dseq: "ds = map ((!) d) (filter (\<lambda>m. m \<noteq> k) mapped)"
    unfolding mapped_distances_eq by (auto split: if_splits)
  show ?case
  proof (cases i)
    case 0
    with d ok dseq dc show ?thesis by simp
  next
    case (Suc j)
    with Cons.prems(2) have "j < length ks" by simp
    from Cons.IH [OF rest this] Suc dc show ?thesis by simp
  qed
qed

lemma distance_corr_loop_total:
  assumes "\<forall>k \<in> set ks. k < n" "well_formed adjacency n" "\<forall>m \<in> set mapped. m < n"
  shows "\<exists>dc. distance_corr_loop adjacency n mapped ks = Inr dc"
  using assms(1)
proof (induction ks)
  case Nil
  then show ?case by simp
next
  case (Cons k ks)
  then have k: "k < n" and ks: "\<forall>k \<in> set ks. k < n" by simp_all
  from shortest_distances_total [OF k assms(2)] obtain d where
    d: "shortest_distances adjacency n k = Inr d" by blast
  from shortest_distances_correct(1) [OF k d] have "length d = n" .
  with assms(3) have md: "mapped_distances d mapped k = Inr (map ((!) d) (filter (\<lambda>m. m \<noteq> k) mapped))"
    by (simp add: mapped_distances_eq)
  from Cons.IH [OF ks] obtain rest where "distance_corr_loop adjacency n mapped ks = Inr rest"
    by blast
  with d md show ?case by simp
qed

lemma get_distance_correlation_nth:
  assumes "get_distance_correlation nodes adjacency mapped = Inr dc" "k < length nodes"
  shows "length dc = length nodes"
    and "\<exists>d. shortest_distances adjacency (length nodes) k = Inr d
           \<and> (\<forall>m \<in> set mapped. m \<noteq> k \<longrightarrow> m < length nodes)
           \<and> dc ! k = avg_distance (map ((!) d) (filter (\<lambda>m. m \<noteq> k) mapped))"
proof -
  from assms(1) have loop:
    "distance_corr_loop adjacency (length nodes) mapped [0 ..< length nodes] = Inr dc"
    by (simp add: get_distance_correlation_def)
  from length_distance_corr_loop [OF loop] show "length dc = length nodes" by simp
  from distance_corr_loop_nth [OF loop, of k] assms(2)
  obtain d where d: "shortest_distances adjacency (length nodes) k = Inr d"
    "\<forall>m \<in> set mapped. m \<noteq> k \<longrightarrow> m < length d"
    "dc ! k = avg_distance (map ((!) d) (filter (\<lambda>m. m \<noteq> k) mapped))"
    by auto
  from shortest_distances_correct(1) [OF assms(2) d(1)] d
  show "\<exists>d. shortest_distances adjacency (length nodes) k = Inr d
           \<and> (\<forall>m \<in> set mapped. m \<noteq> k \<longrightarrow> m < length nodes)
           \<and> dc ! k = avg_distance (map ((!) d) (filter (\<lambda>m. m \<noteq> k) mapped))"
    by auto
qed

lemma get_distance_correlation_total:
  assumes "well_formed adjacency (length nodes)" "\<forall>m \<in> set mapped. m < length nodes"
  shows "\<exists>dc. get_distance_correlation nodes adjacency mapped = Inr dc"
  unfolding get_distance_correlation_def
  using distance_corr_loop_total [OF _ assms, of "[0 ..< length nodes]"] by simp

section \<open>Distance Correlation\<close>

text \<open>
  Claim C7, as amended. \<open>get_distance_correlation\<close> returns a value whenever the
  adjacency list is well formed and the mapped nodes are nodes. Whenever it returns
  \<open>distance_corr\<close>, the list has one entry per node, and for every node \<open>k\<close> the
  breadth-first search from \<open>k\<close> has returned a list \<open>distance\<close> in which \<open>k\<close> itself
  has distance 0, every node reachable from \<open>k\<close> has its hop distance and every node not
  reachable from \<open>k\<close> has 0; the entry \<open>k\<close> of \<open>distance_corr\<close> is the sum of
  \<open>distance\<close> over the entries of the list \<open>mapped_nodes\<close> other than \<open>k\<close>, an index
  that occurs several times taken as often, divided by the number of these entries, and
  exactly 0 when \<open>mapped_nodes\<close> is empty or holds \<open>k\<close> only.
\<close>

theorem distance_correlation_is_list_average:
  "(well_formed adjacency (length nodes) \<and> (\<forall>m \<in> set mapped. m < length nodes) \<longrightarrow>
      (\<exists>dc. get_distance_correlation nodes adjacency mapped = Inr dc))
   \<and> (get_distance_correlation nodes adjacency mapped = Inr distance_corr \<and> k < length nodes \<longrightarrow>
        length distance_corr = length nodes
        \<and> (\<exists>distance.
              shortest_distances adjacency (length nodes) k = Inr distance
              \<and> distance ! k = 0
              \<and> (\<forall>m. (k, m) \<in> (edges adjacency)\<^sup>* \<longrightarrow>
                     is_hop_distance adjacency k m (distance ! m))
              \<and> (\<forall>m < length nodes. (k, m) \<notin> (edges adjacency)\<^sup>* \<longrightarrow> distance ! m = 0)
              \<and> distance_corr ! k =
                  (let others = filter (\<lambda>m. m \<noteq> k) mapped
                   in if others = [] then 0
                      else real (sum_list (map ((!) distance) others)) / real (length others)))
        \<and> (set mapped \<subseteq> {k} \<longrightarrow> distance_corr ! k = 0))"
proof -
  have total: "\<exists>dc. get_distance_correlation nodes adjacency mapped = Inr dc"
    if "well_formed adjacency (length nodes)" "\<forall>m \<in> set mapped. m < length nodes"
    using get_distance_correlation_total [OF that] .
  have main: "length distance_corr = length nodes
        \<and> (\<exists>distance.
              shortest_distances adjacency (length nodes) k = Inr distance
              \<and> distance ! k = 0
              \<and> (\<forall>m. (k, m) \<in> (edges adjacency)\<^sup>* \<longrightarrow>
                     is_hop_distance adjacency k m (distance ! m))
              \<and> (\<forall>m < length nodes. (k, m) \<notin> (edges adjacency)\<^sup>* \<longrightarrow> distance ! m = 0)
              \<and> distance_corr ! k =
                  (let others = filter (\<lambda>m. m \<noteq> k) mapped
                   in if others = [] then 0
                      else real (sum_list (map ((!) distance) others)) / real (length others)))
        \<and> (set mapped \<subseteq> {k} \<longrightarrow> distance_corr ! k = 0)"
    if run: "get_distance_correlation nodes adjacency mapped = Inr distance_corr"
      and k: "k < length nodes"
  proof -
    from get_distance_correlation_nth [OF run k] obtain d where
      len: "length distance_corr = length nodes"
      and d: "shortest_distances adjacency (length nodes) k = Inr d"
      and avg: "distance_corr ! k = avg_distance (map ((!) d) (filter (\<lambda>m. m \<noteq> k) mapped))"
      by blast
    note correct = shortest_distances_correct [OF k d]
    have hop: "\<forall>m. (k, m) \<in> (edges adjacency)\<^sup>* \<longrightarrow> is_hop_distance adjacency k m (d ! m)"
      using correct(3) by blast
    have unreach: "\<forall>m < length nodes. (k, m) \<notin> (edges adjacency)\<^sup>* \<longrightarrow> d ! m = 0"
      using correct(4) by blast
    have formula: "distance_corr ! k =
                  (let others = filter (\<lambda>m. m \<noteq> k) mapped
                   in if others = [] then 0
                      else real (sum_list (map ((!) d) others)) / real (length others))"
      unfolding avg by (simp add: avg_distance_def Let_def)
    have zero: "distance_corr ! k = 0" if "set mapped \<subseteq> {k}"
    proof -
      from that have "filter (\<lambda>m. m \<noteq> k) mapped = []"
        by (auto simp: filter_empty_conv)
      with formula show ?thesis by simp
    qed
    from len d correct(2) hop unreach formula zero show ?thesis by blast
  qed
  from total main show ?thesis by blast
qed

theorem distance_correlation_is_list_average_witness:
  "get_distance_correlation example_nodes example_adjacency [1, 1, 0] = Inr [1, 1, 0]
   \<and> shortest_distances example_adjacency 3 0 = Inr [0, 1, 0]
   \<and> get_distance_correlation example_nodes example_adjacency [] = Inr [0, 0, 0]"
proof -
  have 1: "well_formed example_adjacency (length example_nodes)"
    by code_simp
  have 2: "\<forall>m \<in> set [1, 1, 0 :: nat]. m < length example_nodes"
    by code_simp
  have 3: "get_distance_correlation example_nodes example_adjacency [1, 1, 0] = Inr [1, 1, 0]"
    by code_simp
  have 4: "(0 :: nat) < length example_nodes"
    by code_simp
  have 5: "shortest_distances example_adjacency 3 0 = Inr [0, 1, 0]"
    by code_simp
  have 6: "get_distance_correlation example_nodes example_adjacency [] = Inr [0, 0, 0]"
    by code_simp
  from distance_correlation_is_list_average
         [of example_adjacency example_nodes "[1, 1, 0]" "[1, 1, 0]" 0] 1 2 3 4 5 6
  show ?thesis by simp
qed

text \<open>
  Claim C7, as stated, fails. On the path 0 - 1 - 2 - 3 with the isolated node 4, the
  distances from node 1 are 1, 0, 1, 2 and (for node 4, which has no hop distance) 0. The
  lists \<open>[0, 0, 3]\<close> and \<open>[0, 3]\<close> hold the same set of mapped nodes, and the average hop
  distance from node 1 to that set is 3/2; for the first list the Distance Correlation of
  node 1 is 4/3. With the mapped nodes 0 and 4 it is 1/2, though the one mapped node that
  has a hop distance from node 1 is at distance 1.
\<close>

theorem distance_correlation_not_set_average:
  "shortest_distances path_adjacency 5 1 = Inr [1, 0, 1, 2, 0]
   \<and> get_distance_correlation path_nodes path_adjacency [0, 0, 3] = Inr [3, 4 / 3, 5 / 3, 3, 0]
   \<and> get_distance_correlation path_nodes path_adjacency [0, 3] = Inr [3, 3 / 2, 3 / 2, 3, 0]
   \<and> get_distance_correlation path_nodes path_adjacency [0, 4] = Inr [0, 1 / 2, 1, 3 / 2, 0]
   \<and> get_distance_correlation path_nodes path_adjacency [0] = Inr [0, 1, 2, 3, 0]"
  by code_simp




section \<open>The feature list during a session\<close>

text \<open>
  \<open>main\<close> computes the feature list once, before the loop and for no mapped node; a
  commit overwrites one \<open>CPU Resources\<close> entry and nothing else, so that the
  \<open>Distance Correlation\<close> entries of a session never change.
\<close>

lemma bisect_point: "bisect a x lo lo = lo"
  by (simp add: bisect.simps)

lemma single_host_first_step:
  "main_step uniform_policy random single_host_session (virtual_network_request ! 0)
   = Inr (commit single_host_session (virtual_network_request ! 0) 0)"
proof -
  have req: "cpu_req (virtual_network_request ! 0) = 7"
    by (simp add: virtual_network_request_def)
  have nf: "node_features single_host_session = single_host_features"
    and pn: "physical_nodes single_host_session = single_host_nodes"
    by (simp_all add: single_host_session_def initial_session_def)
  have el: "eligible_indices single_host_features 7 = [0]"
    by code_simp
  have probs: "uniform_policy (features_rows single_host_features) = [1 / 3, 1 / 3, 1 / 3]"
    by code_simp
  have ne: "single_host_features \<noteq> []"
    by (simp add: single_host_features_def)
  have "map_virtual_node single_host_features uniform_policy 7 r = Inr ([1 / 3, 1 / 3, 1 / 3], 0)"
    for r
    by (simp add: map_virtual_node_eq Let_def el probs ne bisect_point)
  then show ?thesis
    by (simp add: main_step_def req nf pn single_host_nodes_def single_host_features_def)
qed

lemma distance_correlation_commit:
  "map Distance_Correlation (node_features (commit s v sel))
   = map Distance_Correlation (node_features s)"
proof (cases "sel < length (node_features s)")
  case True
  then show ?thesis
    by (simp add: commit_def Let_def map_update list_update_same_conv)
next
  case False
  then have "length (node_features s) \<le> sel" by simp
  then show ?thesis
    by (simp add: commit_def Let_def list_update_beyond)
qed

lemma distance_correlation_step:
  assumes "main_step policy_net random s v = Inr s'"
  shows "map Distance_Correlation (node_features s')
         = map Distance_Correlation (node_features s)"
  using main_step_cases [OF assms] distance_correlation_commit by auto

lemma distance_correlation_loop:
  "main_loop policy_net random s vs = Inr s' \<Longrightarrow>
   map Distance_Correlation (node_features s') = map Distance_Correlation (node_features s)"
proof (induction vs arbitrary: s)
  case Nil
  then show ?case by simp
next
  case (Cons v vs)
  from Cons.prems obtain s1 where
    s1: "main_step policy_net random s v = Inr s1" "main_loop policy_net random s1 vs = Inr s'"
    by (auto split: sum.splits)
  from Cons.IH [OF s1(2)] distance_correlation_step [OF s1(1)] show ?case by simp
qed

text \<open>
  Claim C1 fails on the code. In the second example node 0 alone has the capacity for the
  first virtual node of the request, so that whatever \<open>random()\<close> returns the first step
  commits node 0 and \<open>mapped_nodes\<close> is \<open>[0]\<close>. The feature list that the next step
  gives to the scoring network still has the Distance Correlation 0 for node 1, whereas
  \<open>get_distance_correlation\<close> for the current nodes and the current \<open>mapped_nodes\<close>
  yields 1, the distance from node 1 to node 0.
\<close>

theorem stale_distance_correlation:
  "get_node_features_matrix single_host_nodes example_links [] = Inr single_host_features
   \<and> main_loop uniform_policy random single_host_session [virtual_network_request ! 0]
       = Inr (commit single_host_session (virtual_network_request ! 0) 0)
   \<and> mapped_nodes (commit single_host_session (virtual_network_request ! 0) 0) = [0]
   \<and> map Distance_Correlation
        (node_features (commit single_host_session (virtual_network_request ! 0) 0)) = [0, 0, 0]
   \<and> get_distance_correlation
        (physical_nodes (commit single_host_session (virtual_network_request ! 0) 0))
        (build_adjacency_list example_links)
        (mapped_nodes (commit single_host_session (virtual_network_request ! 0) 0))
       = Inr [0, 1, 0]"
proof -
  have 1: "get_node_features_matrix single_host_nodes example_links [] = Inr single_host_features"
    by code_simp
  have 2: "main_loop uniform_policy random single_host_session [virtual_network_request ! 0]
       = Inr (commit single_host_session (virtual_network_request ! 0) 0)"
    by (simp add: single_host_first_step)
  have 3: "mapped_nodes (commit single_host_session (virtual_network_request ! 0) 0) = [0]"
    by code_simp
  have 4: "map Distance_Correlation
        (node_features (commit single_host_session (virtual_network_request ! 0) 0)) = [0, 0, 0]"
    by code_simp
  have 5: "get_distance_correlation
        (physical_nodes (commit single_host_session (virtual_network_request ! 0) 0))
        (build_adjacency_list example_links)
        (mapped_nodes (commit single_host_session (virtual_network_request ! 0) 0))
       = Inr [0, 1, 0]"
    by code_simp
  from 1 2 3 4 5 show ?thesis by blast
qed

end
